theory Spec2Isabelle
  imports Main "HOL-Library.Sublist" "HOL-Library.Multiset"
begin

section \<open>Python strings and the built-ins the script calls\<close>

text \<open>
  A Python \<open>str\<close> is a sequence of Unicode code points, so a string is a list of
  code points (\<open>nat\<close>): the byte-order mark \<open>U+FEFF\<close> is one element, as it is for
  \<open>lstrip\<close>. \<open>py\<close> reads an ASCII literal.
\<close>

type_synonym pystr = "nat list"

definition py :: "string \<Rightarrow> pystr" where
  "py s = map of_char s"

text \<open>
  The line boundaries of \<open>str.splitlines\<close>: LF, VT, FF, CR, FS, GS, RS, NEL, LS, PS
  (and CR LF as one boundary).
\<close>

definition is_linebreak :: "nat \<Rightarrow> bool" where
  "is_linebreak c =
     (c = 10 \<or> c = 11 \<or> c = 12 \<or> c = 13 \<or> c = 28 \<or> c = 29 \<or> c = 30 \<or>
      c = 133 \<or> c = 8232 \<or> c = 8233)"

text \<open>
  The characters \<open>str.strip()\<close> removes (\<open>str.isspace\<close>): U+0009..U+000D,
  U+001C..U+0020, U+0085, U+00A0, U+1680, U+2000..U+200A, U+2028, U+2029, U+202F,
  U+205F, U+3000.
\<close>

definition isspace :: "nat \<Rightarrow> bool" where
  "isspace c =
     ((9 \<le> c \<and> c \<le> 13) \<or> (28 \<le> c \<and> c \<le> 32) \<or> c = 133 \<or> c = 160 \<or> c = 5760 \<or>
      (8192 \<le> c \<and> c \<le> 8202) \<or> c = 8232 \<or> c = 8233 \<or> c = 8239 \<or> c = 8287 \<or>
      c = 12288)"

text \<open>
  \<open>text.splitlines()\<close>: the current line is accumulated in \<open>cur\<close>; a boundary closes
  it (CR LF counts once); the end of the text closes a non-empty line only, so a final
  boundary gives no empty last line.
\<close>

fun splitlines_from :: "pystr \<Rightarrow> pystr \<Rightarrow> pystr list" where
  "splitlines_from cur [] = (if cur = [] then [] else [cur])"
| "splitlines_from cur (c # cs) =
     (if c = 13 \<and> cs \<noteq> [] \<and> hd cs = 10 then cur # splitlines_from [] (tl cs)
      else if is_linebreak c then cur # splitlines_from [] cs
      else splitlines_from (cur @ [c]) cs)"

definition splitlines :: "pystr \<Rightarrow> pystr list" where
  "splitlines text = splitlines_from [] text"

definition lstrip :: "nat \<Rightarrow> pystr \<Rightarrow> pystr" where
  "lstrip ch s = dropWhile (\<lambda>c. c = ch) s"

definition strip :: "pystr \<Rightarrow> pystr" where
  "strip s = rev (dropWhile isspace (rev (dropWhile isspace s)))"

definition startswith :: "pystr \<Rightarrow> pystr \<Rightarrow> bool" where
  "startswith s p = prefix p s"

text \<open>\<open>sep.join(xs)\<close> with the separator \<open>"\n"\<close>.\<close>

fun join_nl :: "pystr list \<Rightarrow> pystr" where
  "join_nl [] = []"
| "join_nl [x] = x"
| "join_nl (x # y # ys) = x @ [10] @ join_nl (y # ys)"

section \<open>extract_group_title\<close>

text \<open>
  \<open>GROUP_TITLE_PATTERN = re.compile(r'group-title="([^"]*)"')\<close>. \<open>match_here s\<close> is
  the pattern matched at the start of \<open>s\<close>: the literal, then every character up to the
  next double quote (code point 34), which has to be there; the result is the group.
  \<open>extract_group_title\<close> is \<open>search\<close>: the leftmost position with a match, and the
  empty string when there is none.
\<close>

definition match_here :: "pystr \<Rightarrow> pystr option" where
  \<open>match_here s =
     (if startswith s (py ''group-title="'')
      then (let r = drop 13 s
            in if dropWhile (\<lambda>c. c \<noteq> 34) r = [] then None
               else Some (takeWhile (\<lambda>c. c \<noteq> 34) r))
      else None)\<close>

fun GROUP_TITLE_search :: "pystr \<Rightarrow> pystr option" where
  "GROUP_TITLE_search [] = match_here []"
| "GROUP_TITLE_search (c # cs) =
     (case match_here (c # cs) of Some g \<Rightarrow> Some g | None \<Rightarrow> GROUP_TITLE_search cs)"

definition extract_group_title :: "pystr \<Rightarrow> pystr" where
  "extract_group_title extinf_line =
     (case GROUP_TITLE_search extinf_line of Some g \<Rightarrow> g | None \<Rightarrow> [])"

section \<open>filter_playlist\<close>

text \<open>The header search: the first line that starts with the token once normalized.\<close>

fun find_header :: "pystr list \<Rightarrow> pystr" where
  "find_header [] = py ''#EXTM3U''"
| "find_header (line # rest) =
     (let normalized = strip (lstrip 65279 line)
      in if startswith normalized (py ''#EXTM3U'') then normalized else find_header rest)"

text \<open>
  The inner \<open>while\<close>: from \<open>next_index\<close>, skip blank lines and lines that start with
  \<open>#\<close>; the result is the final \<open>next_index\<close> and \<open>stream_url\<close> (\<open>None\<close> as in the
  source).
\<close>

function find_stream_url :: "pystr list \<Rightarrow> nat \<Rightarrow> nat \<times> pystr option" where
  "find_stream_url lines next_index =
     (if next_index < length lines
      then (let candidate = strip (lines ! next_index)
            in if candidate = [] then find_stream_url lines (next_index + 1)
               else if startswith candidate (py ''#'') then find_stream_url lines (next_index + 1)
               else (next_index, Some candidate))
      else (next_index, None))"
  by pat_completeness auto
termination
  by (relation "measure (\<lambda>(lines, next_index). length lines - next_index)") auto

declare find_stream_url.simps [simp del]

text \<open>Python truthiness of \<open>stream_url\<close>: \<open>None\<close> and the empty string are false.\<close>

definition truthy :: "pystr option \<Rightarrow> bool" where
  "truthy u = (case u of None \<Rightarrow> False | Some v \<Rightarrow> v \<noteq> [])"

text \<open>\<open>kept_by_group[group_title] += 1\<close> on a \<open>Counter\<close>: a missing key counts 0.\<close>

definition counter_incr :: "(pystr \<rightharpoonup> nat) \<Rightarrow> pystr \<Rightarrow> (pystr \<rightharpoonup> nat)" where
  "counter_incr m k = m(k \<mapsto> (case m k of None \<Rightarrow> 1 | Some n \<Rightarrow> n + 1))"

record loop_state =
  index :: nat
  output_lines :: "pystr list"
  kept_by_group :: "pystr \<rightharpoonup> nat"

text \<open>One iteration of the main \<open>while\<close>, entered with \<open>index < len(lines)\<close>.\<close>

definition loop_body :: "pystr list \<Rightarrow> pystr list \<Rightarrow> loop_state \<Rightarrow> loop_state" where
  "loop_body lines keywords s =
     (let line = strip (lines ! index s)
      in if \<not> startswith line (py ''#EXTINF'') then s\<lparr>index := index s + 1\<rparr>
         else
           (let group_title = extract_group_title line;
                should_keep = list_ex (\<lambda>keyword. sublist keyword group_title) keywords;
                (next_index, stream_url) = find_stream_url lines (index s + 1);
                s' = (if truthy stream_url \<and> should_keep
                      then s\<lparr>output_lines := output_lines s @ [line, the stream_url],
                             kept_by_group := counter_incr (kept_by_group s) group_title\<rparr>
                      else s)
            in s'\<lparr>index := (if truthy stream_url then next_index + 1 else index s + 1)\<rparr>))"

lemma find_stream_url_bounds:
  "find_stream_url lines i = (j, u) \<Longrightarrow> i \<le> j"
proof (induction lines i rule: find_stream_url.induct)
  case (1 lines next_index)
  then show ?case
    by (subst (asm) (3) find_stream_url.simps)
       (fastforce simp: Let_def split: if_splits)
qed

lemma loop_body_advances:
  "index s < index (loop_body lines keywords s)"
  by (auto simp: loop_body_def Let_def split: prod.splits dest: find_stream_url_bounds)

function main_loop :: "pystr list \<Rightarrow> pystr list \<Rightarrow> loop_state \<Rightarrow> loop_state" where
  "main_loop lines keywords s =
     (if index s < length lines then main_loop lines keywords (loop_body lines keywords s)
      else s)"
  by pat_completeness auto
termination
proof (relation "measure (\<lambda>(lines, keywords, s). length lines - index s)")
  show "wf (measure (\<lambda>(lines, keywords, s). length lines - index s))"
    by simp
next
  fix lines kws :: "pystr list" and s :: loop_state
  assume "index s < length lines"
  with loop_body_advances [of s lines kws]
  show "((lines, kws, loop_body lines kws s), (lines, kws, s))
          \<in> measure (\<lambda>(lines, keywords, s). length lines - index s)"
    by simp
qed

declare main_loop.simps [simp del]

definition filter_playlist :: "pystr \<Rightarrow> pystr list \<Rightarrow> pystr \<times> (pystr \<rightharpoonup> nat)" where
  "filter_playlist text keywords =
     (let lines = splitlines text;
          header = find_header lines;
          s = main_loop lines keywords
                \<lparr>index = 0, output_lines = [header], kept_by_group = Map.empty\<rparr>
      in (join_nl (output_lines s) @ [10], kept_by_group s))"

text \<open>
  The words of the specification for lines: a directive line starts with the directive
  prefix once stripped; a substantive line is neither blank nor a comment once stripped.
\<close>

definition is_directive :: "pystr \<Rightarrow> bool" where
  "is_directive l = startswith (strip l) (py ''#EXTINF'')"

definition substantive :: "pystr \<Rightarrow> bool" where
  "substantive l = (strip l \<noteq> [] \<and> \<not> startswith (strip l) (py ''#''))"

text \<open>A line of \<open>splitlines\<close> holds no line boundary.\<close>

definition clean :: "pystr \<Rightarrow> bool" where
  "clean l = list_all (\<lambda>c. \<not> is_linebreak c) l"

text \<open>
  For the proof of idempotence: the pairs a scan keeps (both lines stripped, the first a
  directive whose label matches, the second substantive), the lines they make, and the
  counts they give; \<open>scanned\<close> says that the output so far is the header and such
  pairs, and the counts are theirs.
\<close>

definition kept_pair :: "pystr list \<Rightarrow> pystr \<times> pystr \<Rightarrow> bool" where
  "kept_pair kws p =
     (case p of (d, u) \<Rightarrow>
        strip d = d \<and> is_directive d \<and>
        list_ex (\<lambda>k. sublist k (extract_group_title d)) kws \<and>
        strip u = u \<and> substantive u)"

fun flat :: "(pystr \<times> pystr) list \<Rightarrow> pystr list" where
  "flat [] = []"
| "flat ((d, u) # ps) = d # u # flat ps"

definition tally :: "(pystr \<rightharpoonup> nat) \<Rightarrow> (pystr \<times> pystr) list \<Rightarrow> (pystr \<rightharpoonup> nat)" where
  "tally cnt ps = foldl counter_incr cnt (map (\<lambda>p. extract_group_title (fst p)) ps)"

definition scanned :: "pystr list \<Rightarrow> pystr \<Rightarrow> loop_state \<Rightarrow> bool" where
  "scanned kws h s =
     (\<exists>ps. list_all (kept_pair kws) ps \<and> output_lines s = h # flat ps \<and>
        kept_by_group s = tally Map.empty ps)"

section \<open>fetch_text\<close>

text \<open>
  The network is a parameter: \<open>urlopen w url\<close> is what one pass through the body of the
  \<open>for\<close> loop meets for \<open>url\<close> in the world \<open>w\<close>, together with the world
  afterwards (so the same URL may answer differently on a later attempt; the timeout
  is part of the world).
  \<^item> \<open>Fetched text\<close>: the request was answered and read; \<open>text\<close> is
    \<open>raw.decode("utf-8-sig", errors="replace")\<close>, which never raises.
  \<^item> \<open>Failed exc\<close>: \<open>urlopen\<close> or \<open>read\<close> raised an exception of the classes of the
    \<open>except\<close> clause (\<open>URLError\<close>, \<open>TimeoutError\<close>, \<open>OSError\<close>).
  \<^item> \<open>Escaped x\<close>: any other exception (the \<open>ValueError\<close> of \<open>Request\<close> on a
    malformed URL, raised before the \<open>try\<close>; an \<open>http.client.HTTPException\<close> of
    \<open>read\<close>): nothing catches it, and it leaves \<open>fetch_text\<close>.
\<close>

datatype ('e, 'x) outcome =
  is_Fetched: Fetched pystr | is_Failed: Failed 'e | is_Escaped: Escaped 'x

text \<open>
  The ways \<open>fetch_text\<close> raises: \<open>RuntimeError("no source URLs were provided")\<close>, with
  no cause; \<open>RuntimeError(f"failed to fetch source playlist: {last_error}") from
  last_error\<close>; and an exception that was not caught.
\<close>

datatype ('e, 'x) fetch_error = NoSourceURLs | FetchFailed 'e | Propagated 'x

text \<open>
  A run gives the value returned (\<open>Inr (text, url)\<close>) or the exception raised
  (\<open>Inl\<close>), the world afterwards, and the URLs for which the body of the loop ran,
  in order.
\<close>

type_synonym ('w, 'e, 'x) fetch_run =
  "(('e, 'x) fetch_error + pystr \<times> pystr) \<times> 'w \<times> pystr list"

fun fetch_loop ::
  "('w \<Rightarrow> pystr \<Rightarrow> ('e, 'x) outcome \<times> 'w) \<Rightarrow> 'w \<Rightarrow> pystr list \<Rightarrow> 'e option \<Rightarrow> pystr list
     \<Rightarrow> ('w, 'e, 'x) fetch_run" where
  "fetch_loop urlopen w [] last_error tried =
     (case last_error of
        None \<Rightarrow> (Inl NoSourceURLs, w, tried)
      | Some exc \<Rightarrow> (Inl (FetchFailed exc), w, tried))"
| "fetch_loop urlopen w (url # urls) last_error tried =
     (case urlopen w url of
        (Fetched text, w') \<Rightarrow> (Inr (text, url), w', tried @ [url])
      | (Failed exc, w') \<Rightarrow> fetch_loop urlopen w' urls (Some exc) (tried @ [url])
      | (Escaped x, w') \<Rightarrow> (Inl (Propagated x), w', tried @ [url]))"

definition fetch_text ::
  "('w \<Rightarrow> pystr \<Rightarrow> ('e, 'x) outcome \<times> 'w) \<Rightarrow> 'w \<Rightarrow> pystr list \<Rightarrow> ('w, 'e, 'x) fetch_run" where
  "fetch_text urlopen w urls = fetch_loop urlopen w urls None []"

text \<open>
  For stating properties of a run: what each source of the list answers when the
  sources are attempted one after the other, whatever the answers are.
\<close>

fun attempts ::
  "('w \<Rightarrow> pystr \<Rightarrow> ('e, 'x) outcome \<times> 'w) \<Rightarrow> 'w \<Rightarrow> pystr list \<Rightarrow> ('e, 'x) outcome list" where
  "attempts urlopen w [] = []"
| "attempts urlopen w (url # urls) =
     (case urlopen w url of (r, w') \<Rightarrow> r # attempts urlopen w' urls)"

text \<open>The world after the sources of a list have been attempted one after the other.\<close>

fun world_after :: "('w \<Rightarrow> pystr \<Rightarrow> ('e, 'x) outcome \<times> 'w) \<Rightarrow> 'w \<Rightarrow> pystr list \<Rightarrow> 'w" where
  "world_after urlopen w [] = w"
| "world_after urlopen w (url # urls) = world_after urlopen (snd (urlopen w url)) urls"

section \<open>Evaluation on concrete inputs\<close>

lemmas eval_defs =
  py_def splitlines_def is_linebreak_def isspace_def strip_def lstrip_def startswith_def
  match_here_def extract_group_title_def truthy_def counter_incr_def loop_body_def
  find_stream_url.simps main_loop.simps filter_playlist_def Let_def sublist_code(3)

section \<open>Facts about the built-ins\<close>

lemma strip_Nil [simp]: "strip [] = []"
  by (simp add: strip_def)

lemma set_strip: "set (strip s) \<subseteq> set s"
  by (auto simp: strip_def dest!: set_dropWhileD)

lemma strip_prefix_dropWhile: "prefix (strip s) (dropWhile isspace s)"
  using suffix_dropWhile [of isspace "rev (dropWhile isspace s)"]
  by (simp add: strip_def suffix_to_prefix)

lemma strip_hd: "strip s \<noteq> [] \<Longrightarrow> \<not> isspace (hd (strip s))"
proof -
  assume ne: "strip s \<noteq> []"
  from strip_prefix_dropWhile [of s] obtain zs where z: "dropWhile isspace s = strip s @ zs"
    by (auto simp: prefix_def)
  with ne have "hd (strip s) = hd (dropWhile isspace s)" by simp
  moreover from z ne have "dropWhile isspace s \<noteq> []" by simp
  ultimately show ?thesis by (simp add: hd_dropWhile)
qed

lemma strip_last: "strip s \<noteq> [] \<Longrightarrow> \<not> isspace (last (strip s))"
  by (simp add: strip_def last_rev hd_dropWhile)

lemma strip_fixed: "s = [] \<or> (\<not> isspace (hd s) \<and> \<not> isspace (last s)) \<Longrightarrow> strip s = s"
proof -
  assume a: "s = [] \<or> (\<not> isspace (hd s) \<and> \<not> isspace (last s))"
  then have 1: "dropWhile isspace s = s"
    by (auto simp: dropWhile_eq_self_iff)
  from a have 2: "dropWhile isspace (rev s) = rev s"
    by (auto simp: dropWhile_eq_self_iff hd_rev)
  show ?thesis by (simp add: strip_def 1 2)
qed

lemma strip_idem [simp]: "strip (strip s) = strip s"
  by (rule strip_fixed) (use strip_hd strip_last in blast)

section \<open>Facts about the two loops\<close>

lemma find_stream_url_here:
  "i < length lines \<Longrightarrow> substantive (lines ! i) \<Longrightarrow>
   find_stream_url lines i = (i, Some (strip (lines ! i)))"
  by (subst find_stream_url.simps) (simp add: substantive_def)

lemma find_stream_url_skip:
  "i < length lines \<Longrightarrow> \<not> substantive (lines ! i) \<Longrightarrow>
   find_stream_url lines i = find_stream_url lines (i + 1)"
  by (subst find_stream_url.simps) (auto simp: substantive_def Let_def)

lemma find_stream_url_end:
  "length lines \<le> i \<Longrightarrow> find_stream_url lines i = (i, None)"
  by (subst find_stream_url.simps) simp

lemma find_stream_url_Some:
  "find_stream_url lines i = (j, Some u) \<Longrightarrow>
   i \<le> j \<and> j < length lines \<and> u = strip (lines ! j) \<and> substantive (lines ! j) \<and>
   (\<forall>k. i \<le> k \<and> k < j \<longrightarrow> \<not> substantive (lines ! k))"
proof (induction lines i rule: find_stream_url.induct)
  case (1 lines i)
  show ?case
  proof (cases "i < length lines")
    case False
    with "1.prems" show ?thesis by (simp add: find_stream_url_end)
  next
    case True
    show ?thesis
    proof (cases "substantive (lines ! i)")
      case True
      with \<open>i < length lines\<close> "1.prems" show ?thesis
        by (auto simp: find_stream_url_here)
    next
      case False
      with True "1.prems" have eq: "find_stream_url lines (i + 1) = (j, Some u)"
        by (simp add: find_stream_url_skip)
      have ih: "i + 1 \<le> j \<and> j < length lines \<and> u = strip (lines ! j) \<and> substantive (lines ! j) \<and>
        (\<forall>k. i + 1 \<le> k \<and> k < j \<longrightarrow> \<not> substantive (lines ! k))"
      proof (cases "strip (lines ! i) = []")
        case True
        from "1.IH"(1) [OF \<open>i < length lines\<close> refl True eq] show ?thesis .
      next
        case ne: False
        with False have "startswith (strip (lines ! i)) (py ''#'')"
          by (simp add: substantive_def)
        from "1.IH"(2) [OF \<open>i < length lines\<close> refl ne this eq] show ?thesis .
      qed
      have "\<not> substantive (lines ! k)" if "i \<le> k" "k < j" for k
      proof (cases "k = i")
        case True
        with False show ?thesis by simp
      next
        case False
        with that ih show ?thesis by simp
      qed
      with ih show ?thesis by simp
    qed
  qed
qed

lemma find_stream_url_None_iff:
  "snd (find_stream_url lines i) = None \<longleftrightarrow>
   (\<forall>k. i \<le> k \<and> k < length lines \<longrightarrow> \<not> substantive (lines ! k))"
proof (induction "length lines - i" arbitrary: i)
  case 0
  then show ?case by (auto simp: find_stream_url_end)
next
  case (Suc n)
  then have lt: "i < length lines" and n: "n = length lines - (i + 1)" by simp_all
  show ?case
  proof (cases "substantive (lines ! i)")
    case True
    with lt show ?thesis by (auto simp: find_stream_url_here)
  next
    case False
    have "(\<forall>k. i \<le> k \<and> k < length lines \<longrightarrow> \<not> substantive (lines ! k)) \<longleftrightarrow>
          (\<forall>k. i + 1 \<le> k \<and> k < length lines \<longrightarrow> \<not> substantive (lines ! k))"
      using False by (metis Suc_eq_plus1 Suc_leI le_eq_less_or_eq le_add1 le_trans)
    with Suc.hyps(1) [OF n] False lt show ?thesis
      by (simp add: find_stream_url_skip)
  qed
qed

lemma loop_body_not_directive:
  "\<not> is_directive (lines ! index s) \<Longrightarrow> loop_body lines kws s = s\<lparr>index := index s + 1\<rparr>"
  by (simp add: loop_body_def is_directive_def)

lemma loop_body_no_url:
  "snd (find_stream_url lines (index s + 1)) = None \<Longrightarrow>
   loop_body lines kws s = s\<lparr>index := index s + 1\<rparr>"
  by (cases "find_stream_url lines (index s + 1)") (simp add: loop_body_def truthy_def Let_def)

lemma loop_body_url:
  "is_directive (lines ! index s) \<Longrightarrow> find_stream_url lines (index s + 1) = (j, Some u) \<Longrightarrow>
   loop_body lines kws s =
     (if list_ex (\<lambda>k. sublist k (extract_group_title (strip (lines ! index s)))) kws
      then s\<lparr>index := j + 1,
             output_lines := output_lines s @ [strip (lines ! index s), strip (lines ! j)],
             kept_by_group :=
               counter_incr (kept_by_group s) (extract_group_title (strip (lines ! index s)))\<rparr>
      else s\<lparr>index := j + 1\<rparr>)"
  using find_stream_url_Some [of lines "index s + 1" j u]
  by (simp add: loop_body_def truthy_def Let_def is_directive_def substantive_def)

lemma main_loop_step:
  "index s < length lines \<Longrightarrow>
   main_loop lines kws s = main_loop lines kws (loop_body lines kws s)"
  by (subst main_loop.simps) simp

lemma main_loop_stop:
  "length lines \<le> index s \<Longrightarrow> main_loop lines kws s = s"
  by (subst main_loop.simps) simp

lemma main_loop_iterations:
  "\<exists>n \<le> length lines - index s.
     main_loop lines kws s = (loop_body lines kws ^^ n) s \<and>
     length lines \<le> index ((loop_body lines kws ^^ n) s)"
proof (induction lines kws s rule: main_loop.induct)
  case (1 lines kws s)
  show ?case
  proof (cases "index s < length lines")
    case False
    then show ?thesis by (intro exI [of _ 0]) (simp add: main_loop_stop)
  next
    case True
    from "1.IH" [OF True] obtain n where
      n: "n \<le> length lines - index (loop_body lines kws s)"
         "main_loop lines kws (loop_body lines kws s) = (loop_body lines kws ^^ n) (loop_body lines kws s)"
         "length lines \<le> index ((loop_body lines kws ^^ n) (loop_body lines kws s))"
      by blast
    from n(1) True loop_body_advances [of s lines kws]
    have "Suc n \<le> length lines - index s" by simp
    with n(2,3) True show ?thesis
      by (intro exI [of _ "Suc n"]) (simp add: main_loop_step funpow_swap1)
  qed
qed

lemma loop_body_set_cong:
  "set kws = set kws' \<Longrightarrow> loop_body lines kws s = loop_body lines kws' s"
proof -
  assume "set kws = set kws'"
  then have h: "list_ex P kws = list_ex P kws'" for P :: "pystr \<Rightarrow> bool"
    by (simp add: list_ex_iff)
  show ?thesis by (simp only: loop_body_def h)
qed

lemma main_loop_set_cong:
  "set kws = set kws' \<Longrightarrow> main_loop lines kws s = main_loop lines kws' s"
proof (induction lines kws s rule: main_loop.induct)
  case (1 lines kws s)
  show ?case
  proof (cases "index s < length lines")
    case True
    with "1.IH" [OF True "1.prems"] loop_body_set_cong [OF "1.prems", of lines s]
    show ?thesis by (simp add: main_loop_step)
  next
    case False
    then show ?thesis by (simp add: main_loop_stop)
  qed
qed


lemma strip_all_space: "list_all isspace s \<Longrightarrow> strip s = []"
proof -
  assume "list_all isspace s"
  then have d: "dropWhile isspace s = []"
    by (simp add: list_all_iff)
  show ?thesis unfolding strip_def d by simp
qed

text \<open>Scanning lines that hold no directive, or no substantive line, changes nothing.\<close>

lemma main_loop_no_directive:
  "(\<forall>k. index s \<le> k \<and> k < length lines \<longrightarrow> \<not> is_directive (lines ! k)) \<Longrightarrow>
   output_lines (main_loop lines kws s) = output_lines s \<and>
   kept_by_group (main_loop lines kws s) = kept_by_group s"
proof (induction lines kws s rule: main_loop.induct)
  case (1 lines kws s)
  show ?case
  proof (cases "index s < length lines")
    case False
    then show ?thesis by (simp add: main_loop_stop)
  next
    case True
    with "1.prems" have b: "loop_body lines kws s = s\<lparr>index := index s + 1\<rparr>"
      by (simp add: loop_body_not_directive)
    with "1.prems" have "\<forall>k. index (loop_body lines kws s) \<le> k \<and> k < length lines
        \<longrightarrow> \<not> is_directive (lines ! k)" by simp
    from "1.IH" [OF True this] b True show ?thesis
      by (simp add: main_loop_step)
  qed
qed

lemma main_loop_no_substantive:
  "(\<forall>k. index s < k \<and> k < length lines \<longrightarrow> \<not> substantive (lines ! k)) \<Longrightarrow>
   output_lines (main_loop lines kws s) = output_lines s \<and>
   kept_by_group (main_loop lines kws s) = kept_by_group s"
proof (induction lines kws s rule: main_loop.induct)
  case (1 lines kws s)
  show ?case
  proof (cases "index s < length lines")
    case False
    then show ?thesis by (simp add: main_loop_stop)
  next
    case True
    from "1.prems" have "snd (find_stream_url lines (index s + 1)) = None"
      by (simp add: find_stream_url_None_iff)
    then have b: "loop_body lines kws s = s\<lparr>index := index s + 1\<rparr>"
      by (rule loop_body_no_url)
    with "1.prems" have "\<forall>k. index (loop_body lines kws s) < k \<and> k < length lines
        \<longrightarrow> \<not> substantive (lines ! k)" by simp
    from "1.IH" [OF True this] b True show ?thesis
      by (simp add: main_loop_step)
  qed
qed

lemma find_header_find:
  "find_header lines =
     (case find (\<lambda>l. startswith (strip (lstrip 65279 l)) (py ''#EXTM3U'')) lines of
        None \<Rightarrow> py ''#EXTM3U'' | Some l \<Rightarrow> strip (lstrip 65279 l))"
  by (induction lines) (simp_all add: Let_def)

lemma splitlines_from_chars:
  "l \<in> set (splitlines_from cur text) \<Longrightarrow> set l \<subseteq> set cur \<union> set text"
proof (induction cur "text" rule: splitlines_from.induct)
  case (1 cur)
  then show ?case by (simp split: if_splits)
next
  case (2 cur c cs)
  show ?case
  proof (cases "c = 13 \<and> cs \<noteq> [] \<and> hd cs = 10")
    case True
    with "2.prems" have "l = cur \<or> l \<in> set (splitlines_from [] (tl cs))" by simp
    with "2.IH"(1) [OF True] True show ?thesis
      by (cases cs) auto
  next
    case nocrlf: False
    show ?thesis
    proof (cases "is_linebreak c")
      case True
      with nocrlf "2.prems" have "l = cur \<or> l \<in> set (splitlines_from [] cs)" by auto
      with "2.IH"(2) [OF nocrlf True] show ?thesis by auto
    next
      case False
      with nocrlf "2.prems" have "l \<in> set (splitlines_from (cur @ [c]) cs)" by auto
      with "2.IH"(3) [OF nocrlf False] show ?thesis by auto
    qed
  qed
qed

lemma splitlines_chars: "l \<in> set (splitlines text) \<Longrightarrow> set l \<subseteq> set text"
  using splitlines_from_chars [of l "[]" "text"] by (simp add: splitlines_def)

lemma find_header_blank:
  "\<forall>l \<in> set lines. list_all isspace l \<Longrightarrow> find_header lines = py ''#EXTM3U''"
proof (induction lines)
  case Nil
  then show ?case by simp
next
  case (Cons l lines)
  then have "list_all isspace l" by simp
  then have "list_all isspace (lstrip 65279 l)"
    by (auto simp: lstrip_def list_all_iff dest: set_dropWhileD)
  then have "strip (lstrip 65279 l) = []" by (rule strip_all_space)
  with Cons show ?case by (simp add: startswith_def py_def)
qed

lemma match_here_None:
  \<open>\<not> startswith s (py ''group-title="'') \<Longrightarrow> match_here s = None\<close>
  by (simp add: match_here_def)

lemma match_here_Some:
  \<open>34 \<notin> set g \<Longrightarrow> match_here (py ''group-title="'' @ g @ 34 # rest) = Some g\<close>
proof -
  assume g: "34 \<notin> set g"
  then have 1: "dropWhile (\<lambda>c. c \<noteq> 34) (g @ 34 # rest) = 34 # rest"
    by (induction g) auto
  from g have 2: "takeWhile (\<lambda>c. c \<noteq> 34) (g @ 34 # rest) = g"
    by (induction g) auto
  have 3: \<open>drop 13 (py ''group-title="'' @ g @ 34 # rest) = g @ 34 # rest\<close>
    by (simp add: py_def)
  show ?thesis
    unfolding match_here_def startswith_def Let_def 3 1 2 by simp
qed

lemma GROUP_TITLE_search_absent:
  \<open>\<not> sublist (py ''group-title="'') l \<Longrightarrow> GROUP_TITLE_search l = None\<close>
proof (induction l)
  case Nil
  then show ?case by (simp add: match_here_def startswith_def py_def)
next
  case (Cons c cs)
  from Cons.prems have \<open>\<not> prefix (py ''group-title="'') (c # cs)\<close>
    using prefix_imp_sublist by blast
  then have 1: "match_here (c # cs) = None"
    by (simp add: match_here_None startswith_def)
  from Cons.prems have \<open>\<not> sublist (py ''group-title="'') cs\<close>
    by (simp add: sublist_Cons_right)
  with Cons.IH 1 show ?case by simp
qed

lemma GROUP_TITLE_search_first:
  \<open>34 \<notin> set g \<Longrightarrow> \<not> sublist (py ''group-title="'') (pre @ py ''group-title='') \<Longrightarrow>
   GROUP_TITLE_search (pre @ py ''group-title="'' @ g @ 34 # rest) = Some g\<close>
proof (induction pre)
  case Nil
  have \<open>py ''group-title="'' @ g @ 34 # rest = 103 # (tl (py ''group-title="'') @ g @ 34 # rest)\<close>
    by (simp add: py_def)
  then have \<open>GROUP_TITLE_search (py ''group-title="'' @ g @ 34 # rest)
     = (case match_here (py ''group-title="'' @ g @ 34 # rest) of Some g \<Rightarrow> Some g
        | None \<Rightarrow> GROUP_TITLE_search (tl (py ''group-title="'') @ g @ 34 # rest))\<close>
    by (metis GROUP_TITLE_search.simps(2))
  with match_here_Some [OF Nil.prems(1), of rest] show ?case by simp
next
  case (Cons c pre)
  have \<open>\<not> prefix (py ''group-title="'') (c # pre @ py ''group-title="'' @ g @ 34 # rest)\<close>
  proof
    assume p: \<open>prefix (py ''group-title="'') (c # pre @ py ''group-title="'' @ g @ 34 # rest)\<close>
    have \<open>c # pre @ py ''group-title="'' @ g @ 34 # rest
        = ((c # pre) @ py ''group-title='') @ (34 # g @ 34 # rest)\<close>
      by (simp add: py_def)
    with p have \<open>prefix (py ''group-title="'') (((c # pre) @ py ''group-title='') @ (34 # g @ 34 # rest))\<close>
      by simp
    moreover have \<open>length (py ''group-title="'') \<le> length ((c # pre) @ py ''group-title='')\<close>
      by (simp add: py_def)
    ultimately have \<open>prefix (py ''group-title="'') ((c # pre) @ py ''group-title='')\<close>
      by (metis prefix_length_prefix prefixI)
    with Cons.prems(2) show False using prefix_imp_sublist by blast
  qed
  then have 1: \<open>match_here (c # pre @ py ''group-title="'' @ g @ 34 # rest) = None\<close>
    by (simp add: match_here_None startswith_def)
  from Cons.prems(2) have \<open>\<not> sublist (py ''group-title="'') (pre @ py ''group-title='')\<close>
    by (simp add: sublist_Cons_right)
  from Cons.IH [OF Cons.prems(1) this] 1 show ?case by simp
qed

lemma extract_group_title_absent:
  \<open>\<not> sublist (py ''group-title="'') l \<Longrightarrow> extract_group_title l = []\<close>
  by (simp add: extract_group_title_def GROUP_TITLE_search_absent)

lemma extract_group_title_first:
  \<open>34 \<notin> set g \<Longrightarrow> \<not> sublist (py ''group-title="'') (pre @ py ''group-title='') \<Longrightarrow>
   extract_group_title (pre @ py ''group-title="'' @ g @ 34 # rest) = g\<close>
  using GROUP_TITLE_search_first [of g pre rest] by (simp add: extract_group_title_def)

lemma clean_Nil [simp]: "clean []"
  by (simp add: clean_def)

lemma clean_strip: "clean l \<Longrightarrow> clean (strip l)"
  using set_strip [of l] by (auto simp: clean_def list_all_iff)

lemma clean_lstrip: "clean l \<Longrightarrow> clean (lstrip ch l)"
  by (auto simp: clean_def list_all_iff lstrip_def dest: set_dropWhileD)

lemma splitlines_from_clean:
  "l \<in> set (splitlines_from cur t) \<Longrightarrow> clean cur \<Longrightarrow> clean l"
proof (induction cur t rule: splitlines_from.induct)
  case (1 cur)
  then show ?case by (simp split: if_splits)
next
  case (2 cur c cs)
  show ?case
  proof (cases "c = 13 \<and> cs \<noteq> [] \<and> hd cs = 10")
    case True
    with "2.prems" have "l = cur \<or> l \<in> set (splitlines_from [] (tl cs))" by simp
    with "2.IH"(1) [OF True] "2.prems"(2) show ?thesis by auto
  next
    case nocrlf: False
    show ?thesis
    proof (cases "is_linebreak c")
      case True
      with nocrlf "2.prems" have "l = cur \<or> l \<in> set (splitlines_from [] cs)" by auto
      with "2.IH"(2) [OF nocrlf True] "2.prems"(2) show ?thesis by auto
    next
      case False
      with nocrlf "2.prems" have "l \<in> set (splitlines_from (cur @ [c]) cs)" by auto
      moreover from False "2.prems"(2) have "clean (cur @ [c])" by (simp add: clean_def)
      ultimately show ?thesis using "2.IH"(3) [OF nocrlf False] by simp
    qed
  qed
qed

lemma splitlines_clean: "list_all clean (splitlines t)"
  using splitlines_from_clean [of _ "[]" t] by (simp add: splitlines_def list_all_iff)

lemma splitlines_from_line:
  "clean l \<Longrightarrow> splitlines_from cur (l @ 10 # rest) = (cur @ l) # splitlines_from [] rest"
proof (induction l arbitrary: cur)
  case Nil
  then show ?case by (simp add: is_linebreak_def)
next
  case (Cons c l)
  then have c: "\<not> is_linebreak c" and l: "clean l" by (simp_all add: clean_def)
  from c have "c \<noteq> 13" by (auto simp: is_linebreak_def)
  with c Cons.IH [OF l, of "cur @ [c]"] show ?case by simp
qed

lemma splitlines_from_join:
  "list_all clean out \<Longrightarrow> splitlines_from [] (concat (map (\<lambda>l. l @ [10]) out)) = out"
  by (induction out) (simp_all add: splitlines_from_line)

lemma join_nl_newline:
  "out \<noteq> [] \<Longrightarrow> join_nl out @ [10] = concat (map (\<lambda>l. l @ [10]) out)"
  by (induction out rule: join_nl.induct) simp_all

lemma splitlines_join:
  "out \<noteq> [] \<Longrightarrow> list_all clean out \<Longrightarrow> splitlines (join_nl out @ [10]) = out"
  by (simp add: splitlines_def join_nl_newline splitlines_from_join)

lemma find_header_cases:
  "find_header lines = py ''#EXTM3U'' \<or>
   (\<exists>l \<in> set lines. find_header lines = strip (lstrip 65279 l) \<and>
      startswith (strip (lstrip 65279 l)) (py ''#EXTM3U''))"
  by (induction lines) (auto simp: Let_def)

lemma header_shape:
  assumes "startswith h (py ''#EXTM3U'')"
  shows "lstrip 65279 h = h" and "\<not> startswith h (py ''#EXTINF'')"
proof -
  from assms obtain r where h: "h = py ''#EXTM3U'' @ r"
    by (auto simp: startswith_def prefix_def)
  show "lstrip 65279 h = h" by (simp add: h lstrip_def py_def)
  show "\<not> startswith h (py ''#EXTINF'')" by (simp add: h startswith_def py_def)
qed

lemma find_header_props:
  "startswith (find_header lines) (py ''#EXTM3U'') \<and> strip (find_header lines) = find_header lines"
proof -
  have d: "strip (py ''#EXTM3U'') = py ''#EXTM3U''"
    by (simp add: eval_defs)
  from find_header_cases [of lines] show ?thesis
    by (auto simp: d startswith_def)
qed

lemma find_header_clean: "list_all clean lines \<Longrightarrow> clean (find_header lines)"
proof -
  assume a: "list_all clean lines"
  have d: "clean (py ''#EXTM3U'')"
    by (simp add: clean_def py_def is_linebreak_def)
  from find_header_cases [of lines] a show ?thesis
    by (auto simp: d list_all_iff intro!: clean_strip clean_lstrip)
qed

lemma find_header_again:
  "find_header (find_header lines # rest) = find_header lines"
  using find_header_props [of lines] header_shape(1) [of "find_header lines"]
  by (simp add: Let_def)

lemma flat_snoc: "flat (ps @ [(d, u)]) = flat ps @ [d, u]"
  by (induction ps rule: flat.induct) simp_all

lemma tally_simps:
  "tally cnt [] = cnt"
  "tally cnt ((d, u) # ps) = tally (counter_incr cnt (extract_group_title d)) ps"
  "tally cnt (ps @ [(d, u)]) = counter_incr (tally cnt ps) (extract_group_title d)"
  by (simp_all add: tally_def)

lemma is_directive_strip [simp]: "is_directive (strip l) = is_directive l"
  by (simp add: is_directive_def)

lemma substantive_strip [simp]: "substantive (strip l) = substantive l"
  by (simp add: substantive_def)

text \<open>Scanning the pairs that an earlier scan kept gives them back.\<close>

lemma main_loop_replay:
  "list_all (kept_pair kws) ps \<Longrightarrow>
   main_loop (pre @ flat ps) kws \<lparr>index = length pre, output_lines = out, kept_by_group = cnt\<rparr>
   = \<lparr>index = length pre + 2 * length ps, output_lines = out @ flat ps,
      kept_by_group = tally cnt ps\<rparr>"
proof (induction ps arbitrary: pre out cnt)
  case Nil
  then show ?case by (simp add: main_loop_stop tally_simps)
next
  case (Cons p ps)
  obtain d u where p: "p = (d, u)" by (cases p)
  let ?lines = "pre @ flat (p # ps)"
  let ?s = "\<lparr>index = length pre, output_lines = out, kept_by_group = cnt\<rparr>"
  from Cons.prems p have rest: "list_all (kept_pair kws) ps" and "kept_pair kws (d, u)"
    by simp_all
  then have k: "strip d = d" "is_directive d"
      "list_ex (\<lambda>k. sublist k (extract_group_title d)) kws" "strip u = u" "substantive u"
    by (simp_all add: kept_pair_def)
  have l0: "?lines ! index ?s = d" by (simp add: p)
  have l1: "?lines ! (index ?s + 1) = u" by (simp add: p nth_append)
  have lt: "index ?s < length ?lines" "index ?s + 1 < length ?lines" by (simp_all add: p)
  from find_stream_url_here [OF lt(2)] l1 k(4,5)
  have f: "find_stream_url ?lines (index ?s + 1) = (index ?s + 1, Some u)" by simp
  from k(2) l0 have "is_directive (?lines ! index ?s)" by simp
  from loop_body_url [OF this f, of kws] k(1,3,4) l0 l1
  have b: "loop_body ?lines kws ?s =
      \<lparr>index = length (pre @ [d, u]), output_lines = out @ [d, u],
       kept_by_group = counter_incr cnt (extract_group_title d)\<rparr>"
    by simp
  have e: "?lines = (pre @ [d, u]) @ flat ps" by (simp add: p)
  from Cons.IH [OF rest, of "pre @ [d, u]" "out @ [d, u]" "counter_incr cnt (extract_group_title d)"]
  have "main_loop ?lines kws (loop_body ?lines kws ?s) =
      \<lparr>index = length (pre @ [d, u]) + 2 * length ps, output_lines = (out @ [d, u]) @ flat ps,
       kept_by_group = tally (counter_incr cnt (extract_group_title d)) ps\<rparr>"
    unfolding e b [unfolded e] .
  with main_loop_step [OF lt(1), of kws] show ?case
    by (simp add: p tally_simps)
qed

lemma loop_body_scanned:
  "scanned kws h s \<Longrightarrow> scanned kws h (loop_body lines kws s)"
proof -
  assume a: "scanned kws h s"
  then obtain ps where ps: "list_all (kept_pair kws) ps" "output_lines s = h # flat ps"
      "kept_by_group s = tally Map.empty ps"
    by (auto simp: scanned_def)
  show ?thesis
  proof (cases "is_directive (lines ! index s)")
    case False
    with a show ?thesis by (simp add: loop_body_not_directive scanned_def)
  next
    case True
    obtain j r where f: "find_stream_url lines (index s + 1) = (j, r)"
      by (cases "find_stream_url lines (index s + 1)")
    show ?thesis
    proof (cases r)
      case None
      with f a show ?thesis by (simp add: loop_body_no_url scanned_def)
    next
      case (Some u)
      let ?d = "strip (lines ! index s)"
      let ?u = "strip (lines ! j)"
      show ?thesis
      proof (cases "list_ex (\<lambda>k. sublist k (extract_group_title ?d)) kws")
        case False
        with True f Some a show ?thesis by (simp add: loop_body_url scanned_def)
      next
        case keep: True
        from f Some find_stream_url_Some [of lines "index s + 1" j u]
        have "substantive (lines ! j)" by simp
        with keep True have "kept_pair kws (?d, ?u)" by (simp add: kept_pair_def)
        with ps(1) have 1: "list_all (kept_pair kws) (ps @ [(?d, ?u)])" by simp
        from True f Some keep ps(2,3)
        have 2: "output_lines (loop_body lines kws s) = h # flat (ps @ [(?d, ?u)])"
          and 3: "kept_by_group (loop_body lines kws s) = tally Map.empty (ps @ [(?d, ?u)])"
          by (simp_all add: loop_body_url flat_snoc tally_simps)
        from 1 2 3 show ?thesis unfolding scanned_def by blast
      qed
    qed
  qed
qed

lemma loop_body_clean:
  "list_all clean lines \<Longrightarrow> index s < length lines \<Longrightarrow> list_all clean (output_lines s) \<Longrightarrow>
   list_all clean (output_lines (loop_body lines kws s))"
proof -
  assume a: "list_all clean lines" "index s < length lines" "list_all clean (output_lines s)"
  show ?thesis
  proof (cases "is_directive (lines ! index s)")
    case False
    with a show ?thesis by (simp add: loop_body_not_directive)
  next
    case True
    obtain j r where f: "find_stream_url lines (index s + 1) = (j, r)"
      by (cases "find_stream_url lines (index s + 1)")
    show ?thesis
    proof (cases r)
      case None
      with f a show ?thesis by (simp add: loop_body_no_url)
    next
      case (Some u)
      with f find_stream_url_Some [of lines "index s + 1" j u] have "j < length lines" by simp
      with a(1,2) have "clean (strip (lines ! index s))" "clean (strip (lines ! j))"
        by (simp_all add: list_all_length clean_strip)
      with True f Some a(3) show ?thesis by (simp add: loop_body_url)
    qed
  qed
qed

lemma main_loop_invariants:
  "list_all clean lines \<Longrightarrow> scanned kws h s \<Longrightarrow> list_all clean (output_lines s) \<Longrightarrow>
   scanned kws h (main_loop lines kws s) \<and> list_all clean (output_lines (main_loop lines kws s))"
proof (induction lines kws s rule: main_loop.induct)
  case (1 lines kws s)
  show ?case
  proof (cases "index s < length lines")
    case False
    with "1.prems" show ?thesis by (simp add: main_loop_stop)
  next
    case True
    from "1.IH" [OF True "1.prems"(1) loop_body_scanned [OF "1.prems"(2)]
        loop_body_clean [OF "1.prems"(1) True "1.prems"(3)]] True
    show ?thesis by (simp add: main_loop_step)
  qed
qed

lemma match_here_SomeD:
  \<open>match_here s = Some g \<Longrightarrow> \<exists>rest. s = py ''group-title="'' @ g @ 34 # rest \<and> 34 \<notin> set g\<close>
proof -
  assume a: "match_here s = Some g"
  then have p: \<open>prefix (py ''group-title="'') s\<close>
    by (auto simp: match_here_def startswith_def split: if_splits)
  then obtain r where s: \<open>s = py ''group-title="'' @ r\<close> by (auto simp: prefix_def)
  have d: \<open>drop 13 (py ''group-title="'' @ r) = r\<close> by (simp add: py_def)
  from a p have ne: "dropWhile (\<lambda>c. c \<noteq> 34) r \<noteq> []" and g: "g = takeWhile (\<lambda>c. c \<noteq> 34) r"
    unfolding s match_here_def startswith_def Let_def d by (auto split: if_splits)
  from ne have "hd (dropWhile (\<lambda>c. c \<noteq> 34) r) = 34"
    using hd_dropWhile [of "\<lambda>c. c \<noteq> 34" r] by simp
  with ne obtain rest where "dropWhile (\<lambda>c. c \<noteq> 34) r = 34 # rest"
    by (cases "dropWhile (\<lambda>c. c \<noteq> 34) r") auto
  with g have "r = g @ 34 # rest"
    using takeWhile_dropWhile_id [of "\<lambda>c. c \<noteq> 34" r] by simp
  moreover from g have "34 \<notin> set g" by (auto dest: set_takeWhileD)
  ultimately show ?thesis using s by blast
qed

lemma GROUP_TITLE_search_SomeD:
  \<open>GROUP_TITLE_search l = Some g \<Longrightarrow>
   \<exists>pre rest. l = pre @ py ''group-title="'' @ g @ 34 # rest \<and> 34 \<notin> set g\<close>
proof (induction l)
  case Nil
  then show ?case using match_here_SomeD [of "[]" g] by (simp add: py_def)
next
  case (Cons c cs)
  show ?case
  proof (cases "match_here (c # cs)")
    case (Some g')
    with Cons.prems have "g' = g" by simp
    with Some match_here_SomeD [of "c # cs" g] show ?thesis
      by (metis append_Nil)
  next
    case None
    with Cons.prems have "GROUP_TITLE_search cs = Some g" by simp
    from Cons.IH [OF this] obtain pre rest where
      \<open>cs = pre @ py ''group-title="'' @ g @ 34 # rest\<close> "34 \<notin> set g" by blast
    then have \<open>c # cs = (c # pre) @ py ''group-title="'' @ g @ 34 # rest\<close> by simp
    with \<open>34 \<notin> set g\<close> show ?thesis by blast
  qed
qed

lemma GROUP_TITLE_search_complete:
  \<open>34 \<notin> set g \<Longrightarrow> GROUP_TITLE_search (pre @ py ''group-title="'' @ g @ 34 # rest) \<noteq> None\<close>
proof (induction pre)
  case Nil
  have \<open>py ''group-title="'' @ g @ 34 # rest = 103 # (tl (py ''group-title="'') @ g @ 34 # rest)\<close>
    by (simp add: py_def)
  then have \<open>GROUP_TITLE_search (py ''group-title="'' @ g @ 34 # rest)
     = (case match_here (py ''group-title="'' @ g @ 34 # rest) of Some g \<Rightarrow> Some g
        | None \<Rightarrow> GROUP_TITLE_search (tl (py ''group-title="'') @ g @ 34 # rest))\<close>
    by (metis GROUP_TITLE_search.simps(2))
  with match_here_Some [OF Nil.prems, of rest] show ?case by simp
next
  case (Cons c pre)
  from Cons.IH [OF Cons.prems] show ?case
    by (cases \<open>match_here (c # pre @ py ''group-title="'' @ g @ 34 # rest)\<close>) simp_all
qed

lemma extract_group_title_no_match:
  \<open>\<not> (\<exists>pre g rest. l = pre @ py ''group-title="'' @ g @ 34 # rest \<and> 34 \<notin> set g) \<Longrightarrow>
   extract_group_title l = []\<close>
  using GROUP_TITLE_search_SomeD [of l]
  by (cases "GROUP_TITLE_search l") (auto simp: extract_group_title_def)

lemma GROUP_TITLE_search_one_quote:
  "count_list l (34::nat) < 2 \<Longrightarrow> GROUP_TITLE_search l = None"
proof (rule ccontr)
  assume c: "count_list l (34::nat) < 2" and "GROUP_TITLE_search l \<noteq> None"
  then obtain g where "GROUP_TITLE_search l = Some g" by auto
  from GROUP_TITLE_search_SomeD [OF this] obtain pre rest where
    \<open>l = pre @ py ''group-title="'' @ g @ 34 # rest\<close> by blast
  then have "count_list l (34::nat) \<ge> 2" by (simp add: py_def)
  with c show False by simp
qed

lemma GROUP_TITLE_search_unclosed:
  \<open>34 \<notin> set tail \<Longrightarrow> \<not> sublist (py ''group-title="'') (pre @ py ''group-title='') \<Longrightarrow>
   GROUP_TITLE_search (pre @ py ''group-title="'' @ tail) = None\<close>
proof (induction pre)
  case Nil
  from Nil.prems(1) have d: "dropWhile (\<lambda>c. c \<noteq> 34) tail = []" by auto
  have 3: \<open>drop 13 (py ''group-title="'' @ tail) = tail\<close> by (simp add: py_def)
  have m: \<open>match_here (py ''group-title="'' @ tail) = None\<close>
    unfolding match_here_def Let_def 3 d by simp
  from Nil.prems(1) have "count_list tail (34::nat) = 0" by (simp add: count_list_0_iff)
  then have \<open>count_list (tl (py ''group-title="'') @ tail) (34::nat) < 2\<close>
    by (simp add: py_def)
  then have r: \<open>GROUP_TITLE_search (tl (py ''group-title="'') @ tail) = None\<close>
    by (rule GROUP_TITLE_search_one_quote)
  have \<open>py ''group-title="'' @ tail = 103 # (tl (py ''group-title="'') @ tail)\<close>
    by (simp add: py_def)
  then have \<open>GROUP_TITLE_search (py ''group-title="'' @ tail)
     = (case match_here (py ''group-title="'' @ tail) of Some g \<Rightarrow> Some g
        | None \<Rightarrow> GROUP_TITLE_search (tl (py ''group-title="'') @ tail))\<close>
    by (metis GROUP_TITLE_search.simps(2))
  with m r show ?case by simp
next
  case (Cons c pre)
  have \<open>\<not> prefix (py ''group-title="'') (c # pre @ py ''group-title="'' @ tail)\<close>
  proof
    assume p: \<open>prefix (py ''group-title="'') (c # pre @ py ''group-title="'' @ tail)\<close>
    have \<open>c # pre @ py ''group-title="'' @ tail
        = ((c # pre) @ py ''group-title='') @ (34 # tail)\<close>
      by (simp add: py_def)
    with p have \<open>prefix (py ''group-title="'') (((c # pre) @ py ''group-title='') @ (34 # tail))\<close>
      by simp
    moreover have \<open>length (py ''group-title="'') \<le> length ((c # pre) @ py ''group-title='')\<close>
      by (simp add: py_def)
    ultimately have \<open>prefix (py ''group-title="'') ((c # pre) @ py ''group-title='')\<close>
      by (metis prefix_length_prefix prefixI)
    with Cons.prems(2) show False using prefix_imp_sublist by blast
  qed
  then have 1: \<open>match_here (c # pre @ py ''group-title="'' @ tail) = None\<close>
    by (simp add: match_here_None startswith_def)
  from Cons.prems(2) have \<open>\<not> sublist (py ''group-title="'') (pre @ py ''group-title='')\<close>
    by (simp add: sublist_Cons_right)
  from Cons.IH [OF Cons.prems(1) this] 1 show ?case by simp
qed

lemma extract_group_title_unclosed:
  \<open>34 \<notin> set tail \<Longrightarrow> \<not> sublist (py ''group-title="'') (pre @ py ''group-title='') \<Longrightarrow>
   extract_group_title (pre @ py ''group-title="'' @ tail) = []\<close>
  by (simp add: extract_group_title_def GROUP_TITLE_search_unclosed)

lemma strip_between:
  "list_all isspace a \<Longrightarrow> list_all isspace b \<Longrightarrow> m \<noteq> [] \<Longrightarrow>
   \<not> isspace (hd m) \<Longrightarrow> \<not> isspace (last m) \<Longrightarrow> strip (a @ m @ b) = m"
proof -
  assume a: "list_all isspace a" and b: "list_all isspace b" and m: "m \<noteq> []"
    "\<not> isspace (hd m)" "\<not> isspace (last m)"
  from a have "dropWhile isspace (a @ m @ b) = dropWhile isspace (m @ b)"
    by (intro dropWhile_append2) (simp add: list_all_iff)
  also from m(1,2) have "\<dots> = m @ b" by (cases m) simp_all
  finally have 1: "dropWhile isspace (a @ m @ b) = m @ b" .
  from b have "dropWhile isspace (rev b @ rev m) = dropWhile isspace (rev m)"
    by (intro dropWhile_append2) (simp add: list_all_iff)
  also from m(1,3) have "\<dots> = rev m"
    by (simp add: dropWhile_eq_self_iff hd_rev)
  finally have 2: "dropWhile isspace (rev (m @ b)) = rev m" by simp
  show ?thesis unfolding strip_def 1 2 by simp
qed

lemma splitlines_from_single:
  "clean t \<Longrightarrow> splitlines_from cur t = (if cur @ t = [] then [] else [cur @ t])"
proof (induction t arbitrary: cur)
  case Nil
  then show ?case by simp
next
  case (Cons c t)
  then have c: "\<not> is_linebreak c" and t: "clean t" by (simp_all add: clean_def)
  from c have "c \<noteq> 13" by (auto simp: is_linebreak_def)
  with c Cons.IH [OF t, of "cur @ [c]"] show ?case by simp
qed

lemma splitlines_single: "clean t \<Longrightarrow> t \<noteq> [] \<Longrightarrow> splitlines t = [t]"
  by (simp add: splitlines_def splitlines_from_single)

lemma header_line_normalized:
  assumes boms: "list_all (\<lambda>c. c = 65279) boms"
    and a: "list_all isspace a" and b: "list_all isspace b"
    and h: "startswith h (py ''#EXTM3U'')" "\<not> isspace (last h)"
  shows "strip (lstrip 65279 (boms @ a @ h @ b)) = h"
    and "\<not> is_directive (boms @ a @ h @ b)"
proof -
  from h(1) obtain r where hr: "h = py ''#EXTM3U'' @ r"
    by (auto simp: startswith_def prefix_def)
  then have hne: "h \<noteq> []" and hh: "hd h = 35" by (simp_all add: py_def)
  then have hsp: "\<not> isspace (hd h)" by (simp add: isspace_def)
  from a have "65279 \<notin> set a" by (auto simp: list_all_iff isspace_def)
  with hne hh have "a @ h @ b \<noteq> []" "hd (a @ h @ b) \<noteq> 65279"
    by (cases a; simp)+
  then have "dropWhile (\<lambda>c. c = 65279) (a @ h @ b) = a @ h @ b"
    by (simp add: dropWhile_eq_self_iff)
  moreover from boms have "dropWhile (\<lambda>c. c = 65279) (boms @ a @ h @ b)
      = dropWhile (\<lambda>c. c = 65279) (a @ h @ b)"
    by (intro dropWhile_append2) (simp add: list_all_iff)
  ultimately have "lstrip 65279 (boms @ a @ h @ b) = a @ h @ b"
    by (simp add: lstrip_def)
  with strip_between [OF a b hne hsp h(2)] show "strip (lstrip 65279 (boms @ a @ h @ b)) = h"
    by simp
  show "\<not> is_directive (boms @ a @ h @ b)"
  proof (cases "boms = []")
    case True
    with strip_between [OF a b hne hsp h(2)] header_shape(2) [OF h(1)] show ?thesis
      by (simp add: is_directive_def)
  next
    case False
    let ?m = "boms @ a @ h"
    from False boms have "hd ?m = 65279" by (cases boms) simp_all
    then have 1: "\<not> isspace (hd ?m)" by (simp add: isspace_def)
    from hne have "last ?m = last h" by simp
    with h(2) have 2: "\<not> isspace (last ?m)" by simp
    from False have 3: "?m \<noteq> []" by simp
    from strip_between [of "[]" b ?m, OF _ b 3 1 2] have "strip (boms @ a @ h @ b) = ?m" by simp
    moreover from \<open>hd ?m = 65279\<close> 3 have "\<not> prefix (py ''#EXTINF'') ?m"
      by (cases ?m) (auto simp: py_def)
    ultimately show ?thesis by (simp add: is_directive_def startswith_def)
  qed
qed

section \<open>Facts about fetch_text\<close>

lemma length_attempts [simp]: "length (attempts urlopen w urls) = length urls"
  by (induction urls arbitrary: w) (auto split: prod.splits)

lemma attempts_eq_Nil [simp]: "attempts urlopen w urls = [] \<longleftrightarrow> urls = []"
  by (cases urls) (auto split: prod.splits)

lemma fetch_loop_all_failed:
  "urls \<noteq> [] \<Longrightarrow> list_all is_Failed (attempts urlopen w urls) \<Longrightarrow>
   \<exists>exc w'. last (attempts urlopen w urls) = Failed exc \<and>
     fetch_loop urlopen w urls last_error tried = (Inl (FetchFailed exc), w', tried @ urls)"
proof (induction urls arbitrary: w last_error tried)
  case Nil
  then show ?case by simp
next
  case (Cons url urls)
  obtain r w1 where u: "urlopen w url = (r, w1)" by (cases "urlopen w url")
  with Cons.prems obtain exc where r: "r = Failed exc"
    by (auto simp: is_Failed_def)
  show ?case
  proof (cases "urls = []")
    case True
    with u r show ?thesis by simp
  next
    case False
    from Cons.prems u have "list_all is_Failed (attempts urlopen w1 urls)" by simp
    from Cons.IH [OF False this, of "Some exc" "tried @ [url]"] u r False
    show ?thesis by (auto simp: last_ConsR)
  qed
qed

lemma fetch_loop_isl:
  "isl (fst (fetch_loop urlopen w urls last_error tried)) \<longleftrightarrow>
   \<not> (\<exists>n < length urls. list_all is_Failed (take n (attempts urlopen w urls)) \<and>
          is_Fetched (attempts urlopen w urls ! n))"
proof (induction urls arbitrary: w last_error tried)
  case Nil
  then show ?case by (simp split: option.splits)
next
  case (Cons url urls)
  obtain r w1 where u: "urlopen w url = (r, w1)" by (cases "urlopen w url")
  show ?case
  proof (cases r)
    case (Fetched t)
    with u show ?thesis by (auto intro: exI [of _ 0])
  next
    case (Failed exc)
    have "(\<exists>n < length (url # urls). list_all is_Failed (take n (r # attempts urlopen w1 urls)) \<and>
          is_Fetched ((r # attempts urlopen w1 urls) ! n))
       \<longleftrightarrow> (\<exists>n < length urls. list_all is_Failed (take n (attempts urlopen w1 urls)) \<and>
          is_Fetched (attempts urlopen w1 urls ! n))" (is "?L \<longleftrightarrow> ?R")
    proof
      assume ?L
      then obtain n where n: "n < length (url # urls)"
        "list_all is_Failed (take n (r # attempts urlopen w1 urls))"
        "is_Fetched ((r # attempts urlopen w1 urls) ! n)" by blast
      with Failed obtain m where "n = Suc m" by (cases n) auto
      with n show ?R by auto
    next
      assume ?R
      then obtain n where "n < length urls" "list_all is_Failed (take n (attempts urlopen w1 urls))"
          "is_Fetched (attempts urlopen w1 urls ! n)" by blast
      with Failed show ?L by (intro exI [of _ "Suc n"]) simp
    qed
    with Cons.IH [of w1 "Some exc" "tried @ [url]"] u Failed show ?thesis by simp
  next
    case (Escaped x)
    have "\<not> (\<exists>n < length (url # urls). list_all is_Failed (take n (r # attempts urlopen w1 urls)) \<and>
          is_Fetched ((r # attempts urlopen w1 urls) ! n))"
    proof
      assume "\<exists>n < length (url # urls). list_all is_Failed (take n (r # attempts urlopen w1 urls)) \<and>
          is_Fetched ((r # attempts urlopen w1 urls) ! n)"
      then obtain n where n: "list_all is_Failed (take n (r # attempts urlopen w1 urls))"
        "is_Fetched ((r # attempts urlopen w1 urls) ! n)" by blast
      with Escaped show False by (cases n) auto
    qed
    with u Escaped show ?thesis by simp
  qed
qed

lemma fetch_loop_first_success:
  "list_all is_Failed (attempts urlopen w pre) \<Longrightarrow>
   urlopen (world_after urlopen w pre) good = (Fetched T, w') \<Longrightarrow>
   fetch_loop urlopen w (pre @ good # rest) last_error tried
     = (Inr (T, good), w', tried @ pre @ [good])"
proof (induction pre arbitrary: w last_error tried)
  case Nil
  then show ?case by simp
next
  case (Cons url pre)
  obtain r w1 where u: "urlopen w url = (r, w1)" by (cases "urlopen w url")
  with Cons.prems(1) obtain exc where r: "r = Failed exc"
    by (auto simp: is_Failed_def)
  from Cons.prems u have "list_all is_Failed (attempts urlopen w1 pre)"
    "urlopen (world_after urlopen w1 pre) good = (Fetched T, w')" by simp_all
  from Cons.IH [OF this, of "Some exc" "tried @ [url]"] u r show ?case by simp
qed

lemma fetch_loop_fetch_error:
  "(fst (fetch_loop urlopen w urls last_error tried) = Inl NoSourceURLs \<or>
    (\<exists>exc. fst (fetch_loop urlopen w urls last_error tried) = Inl (FetchFailed exc)))
   \<longleftrightarrow> list_all is_Failed (attempts urlopen w urls)"
proof (induction urls arbitrary: w last_error tried)
  case Nil
  then show ?case by (simp split: option.splits)
next
  case (Cons url urls)
  obtain r w1 where u: "urlopen w url = (r, w1)" by (cases "urlopen w url")
  show ?case
  proof (cases r)
    case (Fetched t)
    with u show ?thesis by simp
  next
    case (Failed exc)
    with u Cons.IH [of w1 "Some exc" "tried @ [url]"] show ?thesis by simp
  next
    case (Escaped x)
    with u show ?thesis by simp
  qed
qed

lemma first_outcome_Failed:
  "is_Failed r \<Longrightarrow> \<not> P r \<Longrightarrow>
   (\<exists>n < Suc k. list_all is_Failed (take n (r # rs)) \<and> P ((r # rs) ! n))
   \<longleftrightarrow> (\<exists>n < k. list_all is_Failed (take n rs) \<and> P (rs ! n))"
proof
  assume f: "is_Failed r" "\<not> P r"
  assume "\<exists>n < Suc k. list_all is_Failed (take n (r # rs)) \<and> P ((r # rs) ! n)"
  then obtain n where n: "n < Suc k" "list_all is_Failed (take n (r # rs))" "P ((r # rs) ! n)"
    by blast
  with f obtain m where "n = Suc m" by (cases n) auto
  with n show "\<exists>n < k. list_all is_Failed (take n rs) \<and> P (rs ! n)" by auto
next
  assume f: "is_Failed r" "\<not> P r"
  assume "\<exists>n < k. list_all is_Failed (take n rs) \<and> P (rs ! n)"
  then obtain n where "n < k" "list_all is_Failed (take n rs)" "P (rs ! n)" by blast
  with f show "\<exists>n < Suc k. list_all is_Failed (take n (r # rs)) \<and> P ((r # rs) ! n)"
    by (intro exI [of _ "Suc n"]) simp
qed

lemma first_outcome_other:
  "\<not> is_Failed r \<Longrightarrow>
   (\<exists>n < Suc k. list_all is_Failed (take n (r # rs)) \<and> P ((r # rs) ! n)) \<longleftrightarrow> P r"
proof
  assume f: "\<not> is_Failed r"
  assume "\<exists>n < Suc k. list_all is_Failed (take n (r # rs)) \<and> P ((r # rs) ! n)"
  then obtain n where n: "list_all is_Failed (take n (r # rs))" "P ((r # rs) ! n)" by blast
  with f show "P r" by (cases n) auto
next
  assume "P r"
  then show "\<exists>n < Suc k. list_all is_Failed (take n (r # rs)) \<and> P ((r # rs) ! n)"
    by (intro exI [of _ 0]) simp
qed

lemma fetch_loop_propagated:
  "fst (fetch_loop urlopen w urls last_error tried) = Inl (Propagated x) \<longleftrightarrow>
   (\<exists>n < length urls. list_all is_Failed (take n (attempts urlopen w urls)) \<and>
      attempts urlopen w urls ! n = Escaped x)"
proof (induction urls arbitrary: w last_error tried)
  case Nil
  then show ?case by (simp split: option.splits)
next
  case (Cons url urls)
  obtain r w1 where u: "urlopen w url = (r, w1)" by (cases "urlopen w url")
  show ?case
  proof (cases r)
    case (Fetched t)
    with u first_outcome_other [where r = r and P = "\<lambda>r. r = Escaped x" and k = "length urls"
        and rs = "attempts urlopen w1 urls"]
    show ?thesis by simp
  next
    case (Failed exc)
    with u Cons.IH [of w1 "Some exc" "tried @ [url]"]
      first_outcome_Failed [where r = r and P = "\<lambda>r. r = Escaped x" and k = "length urls"
        and rs = "attempts urlopen w1 urls"]
    show ?thesis by simp
  next
    case (Escaped y)
    with u first_outcome_other [where r = r and P = "\<lambda>r. r = Escaped x" and k = "length urls"
        and rs = "attempts urlopen w1 urls"]
    show ?thesis by auto
  qed
qed

section \<open>Incomplete entries\<close>

text \<open>
  C1, as amended. A directive line with no substantive (non-blank, non-comment) line
  after it up to the end of the input contributes nothing: the iteration that meets it
  only moves the cursor to the next line, and the rest of the scan leaves the output
  lines and the counts as they were.
\<close>

theorem incomplete_entry_at_end:
  "index s < length lines \<Longrightarrow> is_directive (lines ! index s) \<Longrightarrow>
   (\<forall>k. index s < k \<and> k < length lines \<longrightarrow> \<not> substantive (lines ! k)) \<Longrightarrow>
   loop_body lines kws s = s\<lparr>index := index s + 1\<rparr> \<and>
   output_lines (main_loop lines kws s) = output_lines s \<and>
   kept_by_group (main_loop lines kws s) = kept_by_group s"
  using main_loop_no_substantive [of s lines kws]
    loop_body_no_url [of lines s kws]
  by (simp add: find_stream_url_None_iff)

theorem incomplete_entry_at_end_witness:
  "loop_body [py ''#EXTINF:0,a'', py ''#c'', py '' ''] [py '''']
     \<lparr>index = 0, output_lines = [py ''#EXTM3U''], kept_by_group = Map.empty\<rparr>
   = \<lparr>index = 1, output_lines = [py ''#EXTM3U''], kept_by_group = Map.empty\<rparr> \<and>
   output_lines (main_loop [py ''#EXTINF:0,a'', py ''#c'', py '' ''] [py '''']
     \<lparr>index = 0, output_lines = [py ''#EXTM3U''], kept_by_group = Map.empty\<rparr>) = [py ''#EXTM3U'']"
proof -
  let ?L = "[py ''#EXTINF:0,a'', py ''#c'', py '' '']"
  let ?s = "\<lparr>index = 0, output_lines = [py ''#EXTM3U''], kept_by_group = Map.empty\<rparr>"
  have 1: "index ?s < length ?L" by simp
  have 2: "is_directive (?L ! index ?s)"
    by (simp add: is_directive_def eval_defs)
  have 3: "\<forall>k. index ?s < k \<and> k < length ?L \<longrightarrow> \<not> substantive (?L ! k)"
  proof (intro allI impI)
    fix k assume "index ?s < k \<and> k < length ?L"
    then have "k = 1 \<or> k = 2" by auto
    then show "\<not> substantive (?L ! k)"
      by (auto simp: substantive_def eval_defs)
  qed
  from incomplete_entry_at_end [OF 1 2 3, of "[py '''']"] show ?thesis by simp
qed

text \<open>
  C1 as stated also covers a directive followed by another directive before any
  substantive line. There the inner loop skips the second directive like any line that
  starts with \<open>#\<close>: the first directive is emitted and counted with the URL line that
  follows the second one, and the second directive is never processed.
\<close>

theorem incomplete_entry_counterexample:
  \<open>is_directive (splitlines (py ''#EXTM3U\<newline>#EXTINF:-1 group-title="A",X\<newline>#EXTINF:-1 group-title="B",Y\<newline>http://y\<newline>'') ! 1) \<and>
   is_directive (splitlines (py ''#EXTM3U\<newline>#EXTINF:-1 group-title="A",X\<newline>#EXTINF:-1 group-title="B",Y\<newline>http://y\<newline>'') ! 2) \<and>
   loop_body (splitlines (py ''#EXTM3U\<newline>#EXTINF:-1 group-title="A",X\<newline>#EXTINF:-1 group-title="B",Y\<newline>http://y\<newline>'')) [py ''A'']
     \<lparr>index = 1, output_lines = [py ''#EXTM3U''], kept_by_group = Map.empty\<rparr>
   = \<lparr>index = 4,
      output_lines = [py ''#EXTM3U'', py ''#EXTINF:-1 group-title="A",X'', py ''http://y''],
      kept_by_group = [py ''A'' \<mapsto> 1]\<rparr> \<and>
   filter_playlist (py ''#EXTM3U\<newline>#EXTINF:-1 group-title="A",X\<newline>#EXTINF:-1 group-title="B",Y\<newline>http://y\<newline>'') [py ''A'']
   = (py ''#EXTM3U\<newline>#EXTINF:-1 group-title="A",X\<newline>http://y\<newline>'', [py ''A'' \<mapsto> 1]) \<and>
   filter_playlist (py ''#EXTM3U\<newline>#EXTINF:-1 group-title="A",X\<newline>#EXTINF:-1 group-title="B",Y\<newline>http://y\<newline>'') [py ''A'']
   \<noteq> filter_playlist (py ''#EXTM3U\<newline>#EXTINF:-1 group-title="B",Y\<newline>http://y\<newline>'') [py ''A'']\<close>
  by (simp add: is_directive_def eval_defs)

section \<open>What a kept entry appends\<close>




section \<open>Idempotence\<close>

text \<open>
  C3. Filtering the filtered text again with the same keywords gives the same filtered
  text and the same counts.
\<close>

theorem filter_playlist_idempotent:
  "filter_playlist (fst (filter_playlist t kws)) kws = filter_playlist t kws"
proof -
  let ?lines = "splitlines t"
  let ?h = "find_header ?lines"
  let ?s = "main_loop ?lines kws \<lparr>index = 0, output_lines = [?h], kept_by_group = Map.empty\<rparr>"
  have "scanned kws ?h \<lparr>index = 0, output_lines = [?h], kept_by_group = Map.empty\<rparr>"
    unfolding scanned_def by (intro exI [of _ "[]"]) (simp add: tally_simps)
  moreover have "list_all clean (output_lines \<lparr>index = 0, output_lines = [?h], kept_by_group = Map.empty\<rparr>)"
    by (simp add: find_header_clean splitlines_clean)
  ultimately have inv: "scanned kws ?h ?s" "list_all clean (output_lines ?s)"
    using main_loop_invariants [OF splitlines_clean] by blast+
  then obtain ps where ps: "list_all (kept_pair kws) ps" "output_lines ?s = ?h # flat ps"
      "kept_by_group ?s = tally Map.empty ps"
    by (auto simp: scanned_def)
  from inv(2) ps(2) have sp: "splitlines (join_nl (output_lines ?s) @ [10]) = ?h # flat ps"
    by (simp add: splitlines_join)
  have hd: "find_header (?h # flat ps) = ?h" by (rule find_header_again)
  let ?s0 = "\<lparr>index = 0, output_lines = [?h], kept_by_group = Map.empty\<rparr>"
  have nd: "\<not> is_directive ((?h # flat ps) ! index ?s0)"
    using find_header_props [of ?lines] header_shape(2) [of ?h]
    by (simp add: is_directive_def)
  have "main_loop (?h # flat ps) kws ?s0 = main_loop (?h # flat ps) kws (loop_body (?h # flat ps) kws ?s0)"
    by (rule main_loop_step) simp
  also have "loop_body (?h # flat ps) kws ?s0 =
      \<lparr>index = length [?h], output_lines = [?h], kept_by_group = Map.empty\<rparr>"
    using loop_body_not_directive [OF nd, of kws] by simp
  also have "main_loop (?h # flat ps) kws \<dots> =
      \<lparr>index = length [?h] + 2 * length ps, output_lines = [?h] @ flat ps,
       kept_by_group = tally Map.empty ps\<rparr>"
    using main_loop_replay [OF ps(1), of "[?h]" "[?h]" Map.empty] by simp
  finally have again: "main_loop (?h # flat ps) kws ?s0 =
      \<lparr>index = length [?h] + 2 * length ps, output_lines = ?h # flat ps,
       kept_by_group = tally Map.empty ps\<rparr>" by simp
  have first: "filter_playlist t kws = (join_nl (?h # flat ps) @ [10], tally Map.empty ps)"
    using ps(2,3) by (simp add: filter_playlist_def Let_def)
  have "filter_playlist (join_nl (?h # flat ps) @ [10]) kws
      = (join_nl (?h # flat ps) @ [10], tally Map.empty ps)"
    using sp hd again unfolding ps(2) by (simp add: filter_playlist_def Let_def)
  with first show ?thesis by simp
qed

section \<open>The worked example of the specification\<close>

text \<open>
  C4. On the input with one entry of group \<open>A\<close> and one of group \<open>B\<close>, filtered with
  the keyword list \<open>["A"]\<close>, \<open>filter_playlist\<close> returns the header and the entry of
  group \<open>A\<close>, each line followed by a newline, and the counts \<open>{"A": 1}\<close>.
\<close>

theorem filter_playlist_example:
  \<open>filter_playlist
     (py ''#EXTM3U\<newline>#EXTINF:-1 group-title="A",X\<newline>http://x\<newline>#EXTINF:-1 group-title="B",Y\<newline>http://y\<newline>'')
     [py ''A'']
   = (py ''#EXTM3U\<newline>#EXTINF:-1 group-title="A",X\<newline>http://x\<newline>'',
      [py ''A'' \<mapsto> 1])\<close>
  by (simp add: eval_defs)

section \<open>The keep decision\<close>

text \<open>
  C5. An entry with a candidate URL is kept exactly when its category label contains one
  of the keywords as a literal substring (\<open>label = ps @ k @ ss\<close>); a kept entry is
  appended and counted under its label, a dropped one changes nothing but the cursor.
  The label is the text between the first \<open>group-title="\<close> and the next double quote
  after it. It is the empty string when the pattern is absent: when the line has no
  \<open>group-title="\<close>, when no double quote follows the first one, and in general when
  the line is not of the form \<open>pre group-title="g" rest\<close> with \<open>g\<close> free of double
  quotes. So an entry without the attribute is dropped when no keyword is empty, and an
  empty keyword keeps every entry with a candidate URL. The label \<open>CCTV-News\<close> is kept
  with the keyword \<open>News\<close> and dropped with \<open>news\<close>.
\<close>

theorem keep_decision:
  \<open>(is_directive (lines ! index s) \<and> find_stream_url lines (index s + 1) = (j, Some u) \<longrightarrow>
      loop_body lines kws s =
        (if \<exists>k \<in> set kws. \<exists>ps ss. extract_group_title (strip (lines ! index s)) = ps @ k @ ss
         then s\<lparr>index := j + 1,
                output_lines := output_lines s @ [strip (lines ! index s), u],
                kept_by_group :=
                  counter_incr (kept_by_group s) (extract_group_title (strip (lines ! index s)))\<rparr>
         else s\<lparr>index := j + 1\<rparr>)) \<and>
   (\<not> sublist (py ''group-title="'') line \<longrightarrow> extract_group_title line = []) \<and>
   (34 \<notin> set g \<and> \<not> sublist (py ''group-title="'') (pre @ py ''group-title='') \<longrightarrow>
      extract_group_title (pre @ py ''group-title="'' @ g @ [34] @ rest) = g) \<and>
   (34 \<notin> set tail \<and> \<not> sublist (py ''group-title="'') (pre @ py ''group-title='') \<longrightarrow>
      extract_group_title (pre @ py ''group-title="'' @ tail) = []) \<and>
   (\<not> (\<exists>pre g rest. line = pre @ py ''group-title="'' @ g @ [34] @ rest \<and> 34 \<notin> set g) \<longrightarrow>
      extract_group_title line = []) \<and>
   (is_directive (lines ! index s) \<and> find_stream_url lines (index s + 1) = (j, Some u) \<and>
    \<not> sublist (py ''group-title="'') (strip (lines ! index s)) \<and> [] \<notin> set kws \<longrightarrow>
      loop_body lines kws s = s\<lparr>index := j + 1\<rparr>) \<and>
   (is_directive (lines ! index s) \<and> find_stream_url lines (index s + 1) = (j, Some u) \<and>
    [] \<in> set kws \<longrightarrow>
      output_lines (loop_body lines kws s) = output_lines s @ [strip (lines ! index s), u]) \<and>
   filter_playlist (py ''#EXTM3U\<newline>#EXTINF:-1 group-title="CCTV-News",X\<newline>http://x\<newline>'') [py ''News'']
     = (py ''#EXTM3U\<newline>#EXTINF:-1 group-title="CCTV-News",X\<newline>http://x\<newline>'',
        [py ''CCTV-News'' \<mapsto> 1]) \<and>
   filter_playlist (py ''#EXTM3U\<newline>#EXTINF:-1 group-title="CCTV-News",X\<newline>http://x\<newline>'') [py ''news'']
     = (py ''#EXTM3U\<newline>'', Map.empty)\<close>
proof -
  have ex: "(\<exists>k \<in> set kws. \<exists>ps ss. t = ps @ k @ ss) = list_ex (\<lambda>k. sublist k t) kws" for t :: pystr
    by (simp add: list_ex_iff sublist_def)
  have 1: "loop_body lines kws s =
        (if \<exists>k \<in> set kws. \<exists>ps ss. extract_group_title (strip (lines ! index s)) = ps @ k @ ss
         then s\<lparr>index := j + 1,
                output_lines := output_lines s @ [strip (lines ! index s), u],
                kept_by_group :=
                  counter_incr (kept_by_group s) (extract_group_title (strip (lines ! index s)))\<rparr>
         else s\<lparr>index := j + 1\<rparr>)"
    if "is_directive (lines ! index s)" "find_stream_url lines (index s + 1) = (j, Some u)"
    using that find_stream_url_Some [OF that(2)] unfolding ex by (simp add: loop_body_url)
  have 4: "loop_body lines kws s = s\<lparr>index := j + 1\<rparr>"
    if "is_directive (lines ! index s)" "find_stream_url lines (index s + 1) = (j, Some u)"
      \<open>\<not> sublist (py ''group-title="'') (strip (lines ! index s))\<close> "[] \<notin> set kws"
  proof -
    from that(3) have "extract_group_title (strip (lines ! index s)) = []"
      by (rule extract_group_title_absent)
    moreover from that(4) have "\<not> list_ex (\<lambda>k. sublist k []) kws"
      by (auto simp: list_ex_iff)
    ultimately show ?thesis using that(1,2) by (simp add: loop_body_url)
  qed
  have 5: "output_lines (loop_body lines kws s) = output_lines s @ [strip (lines ! index s), u]"
    if "is_directive (lines ! index s)" "find_stream_url lines (index s + 1) = (j, Some u)"
      "[] \<in> set kws"
  proof -
    from that(3) have "list_ex (\<lambda>k. sublist k (extract_group_title (strip (lines ! index s)))) kws"
      by (auto simp: list_ex_iff)
    with that(1,2) find_stream_url_Some [OF that(2)] show ?thesis by (simp add: loop_body_url)
  qed
  have 6: \<open>filter_playlist (py ''#EXTM3U\<newline>#EXTINF:-1 group-title="CCTV-News",X\<newline>http://x\<newline>'') [py ''News'']
     = (py ''#EXTM3U\<newline>#EXTINF:-1 group-title="CCTV-News",X\<newline>http://x\<newline>'',
        [py ''CCTV-News'' \<mapsto> 1])\<close>
    by (simp add: eval_defs)
  have 7: \<open>filter_playlist (py ''#EXTM3U\<newline>#EXTINF:-1 group-title="CCTV-News",X\<newline>http://x\<newline>'') [py ''news'']
     = (py ''#EXTM3U\<newline>'', Map.empty)\<close>
    by (simp add: eval_defs)
  have 3: \<open>extract_group_title (pre @ py ''group-title="'' @ g @ [34] @ rest) = g\<close>
    if \<open>34 \<notin> set g\<close> \<open>\<not> sublist (py ''group-title="'') (pre @ py ''group-title='')\<close>
    using extract_group_title_first [OF that] by simp
  have 8: \<open>extract_group_title line = []\<close>
    if \<open>\<not> (\<exists>pre g rest. line = pre @ py ''group-title="'' @ g @ [34] @ rest \<and> 34 \<notin> set g)\<close>
    using that extract_group_title_no_match [of line] by simp
  note 9 = extract_group_title_unclosed [of tail pre]
  note 2 = extract_group_title_absent [of line]
  show ?thesis
    apply (intro conjI impI)
    subgoal using 1 by blast
    subgoal using 2 by blast
    subgoal using 3 by blast
    subgoal using 9 by blast
    subgoal using 8 by blast
    subgoal using 4 by blast
    subgoal using 5 by blast
    subgoal by (rule 6)
    subgoal by (rule 7)
    done
qed

theorem keep_decision_witness:
  \<open>loop_body [py ''#EXTINF:-1 group-title="CCTV-News",X'', py ''http://x''] [py ''sport'', py ''News'']
     \<lparr>index = 0, output_lines = [py ''#EXTM3U''], kept_by_group = Map.empty\<rparr>
   = \<lparr>index = 2,
      output_lines = [py ''#EXTM3U'', py ''#EXTINF:-1 group-title="CCTV-News",X'', py ''http://x''],
      kept_by_group = [py ''CCTV-News'' \<mapsto> 1]\<rparr> \<and>
   extract_group_title (py ''#EXTINF:-1 tvg-id="7" group-title="CCTV-News" x="y",X'') = py ''CCTV-News'' \<and>
   extract_group_title (py ''#EXTINF:-1,X'') = [] \<and>
   extract_group_title (py ''#EXTINF:-1 tvg-id="7" group-title="News,X'') = []\<close>
proof -
  let ?L = \<open>[py ''#EXTINF:-1 group-title="CCTV-News",X'', py ''http://x'']\<close>
  let ?s = "\<lparr>index = 0, output_lines = [py ''#EXTM3U''], kept_by_group = Map.empty\<rparr>"
  let ?K = "[py ''sport'', py ''News'']"
  note kd = keep_decision [of ?L ?s 1 "py ''http://x''" ?K "py ''#EXTINF:-1,X''" "py ''CCTV-News''"
      \<open>py ''#EXTINF:-1 tvg-id="7" ''\<close> \<open>py '' x="y",X''\<close> "py ''News,X''"]
  have 1: "is_directive (?L ! index ?s)"
    by (simp add: is_directive_def eval_defs)
  have 2: "find_stream_url ?L (index ?s + 1) = (1, Some (py ''http://x''))"
    by (simp add: eval_defs)
  have 3: \<open>extract_group_title (py ''#EXTINF:-1 group-title="CCTV-News",X'') = py ''CCTV-News''\<close>
    by (simp add: eval_defs)
  have 4: "\<exists>k \<in> set ?K. \<exists>ps ss. py ''CCTV-News'' = ps @ k @ ss"
    using sublist_def [of "py ''News''" "py ''CCTV-News''"]
    by (simp add: py_def sublist_code(3))
  have 5: \<open>strip (?L ! index ?s) = py ''#EXTINF:-1 group-title="CCTV-News",X''\<close>
    by (simp add: eval_defs)
  have 6: \<open>34 \<notin> set (py ''CCTV-News'')\<close> by (simp add: py_def)
  have 7: \<open>\<not> sublist (py ''group-title="'') (py ''#EXTINF:-1 tvg-id="7" '' @ py ''group-title='')\<close>
    by (simp add: py_def sublist_code(3))
  have 8: \<open>\<not> sublist (py ''group-title="'') (py ''#EXTINF:-1,X'')\<close>
    by (simp add: py_def sublist_code(3))
  have 9: \<open>py ''#EXTINF:-1 tvg-id="7" '' @ py ''group-title="'' @ py ''CCTV-News'' @ [34] @ py '' x="y",X''
      = py ''#EXTINF:-1 tvg-id="7" group-title="CCTV-News" x="y",X''\<close>
    by (simp add: py_def)
  have 10: \<open>34 \<notin> set (py ''News,X'')\<close> by (simp add: py_def)
  have 11: \<open>py ''#EXTINF:-1 tvg-id="7" '' @ py ''group-title="'' @ py ''News,X''
      = py ''#EXTINF:-1 tvg-id="7" group-title="News,X''\<close>
    by (simp add: py_def)
  have 12: \<open>\<not> (\<exists>pre g rest. py ''#EXTINF:-1,X'' = pre @ py ''group-title="'' @ g @ [34] @ rest \<and> 34 \<notin> set g)\<close>
  proof
    assume \<open>\<exists>pre g rest. py ''#EXTINF:-1,X'' = pre @ py ''group-title="'' @ g @ [34] @ rest \<and> 34 \<notin> set g\<close>
    then obtain pre g rest where
      e: \<open>py ''#EXTINF:-1,X'' = pre @ py ''group-title="'' @ g @ 34 # rest\<close> and "34 \<notin> set g"
      by auto
    from GROUP_TITLE_search_complete [OF this(2), of pre rest]
    have "GROUP_TITLE_search (py ''#EXTINF:-1,X'') \<noteq> None" unfolding e .
    moreover have "GROUP_TITLE_search (py ''#EXTINF:-1,X'') = None"
      by (simp add: eval_defs)
    ultimately show False by simp
  qed
  note e = kd [THEN conjunct2, THEN conjunct2, THEN conjunct2, THEN conjunct2, THEN conjunct1,
      rule_format, OF 12]
  note a = kd [THEN conjunct1, rule_format, OF conjI [OF 1 2], unfolded 5 3]
  note b = kd [THEN conjunct2, THEN conjunct1, rule_format, OF 8]
  note c = kd [THEN conjunct2, THEN conjunct2, THEN conjunct1, rule_format, OF conjI [OF 6 7],
      unfolded 9]
  note d = kd [THEN conjunct2, THEN conjunct2, THEN conjunct2, THEN conjunct1, rule_format,
      OF conjI [OF 10 7], unfolded 11]
  from a 4 have \<open>loop_body ?L ?K ?s =
    \<lparr>index = 2,
      output_lines = [py ''#EXTM3U'', py ''#EXTINF:-1 group-title="CCTV-News",X'', py ''http://x''],
      kept_by_group = [py ''CCTV-News'' \<mapsto> 1]\<rparr>\<close>
    by (simp add: counter_incr_def)
  with b c d e show ?thesis by simp
qed

section \<open>Keyword order\<close>

text \<open>
  C6. The result does not depend on the order of the keywords: for every text,
  \<open>filter_playlist\<close> with a permutation of the keyword list returns the same filtered
  text and the same counts.
\<close>

theorem filter_playlist_keyword_order:
  "mset kws' = mset kws \<Longrightarrow> filter_playlist text kws' = filter_playlist text kws"
  using main_loop_set_cong [OF mset_eq_setD, of kws' kws]
  by (simp add: filter_playlist_def)

theorem filter_playlist_keyword_order_witness:
  \<open>filter_playlist (py ''#EXTM3U\<newline>#EXTINF:-1 group-title="B",Y\<newline>http://y\<newline>'') [py ''B'', py ''A'']
   = filter_playlist (py ''#EXTM3U\<newline>#EXTINF:-1 group-title="B",Y\<newline>http://y\<newline>'') [py ''A'', py ''B'']\<close>
  using filter_playlist_keyword_order [of "[py ''B'', py ''A'']" "[py ''A'', py ''B'']"]
  by simp

section \<open>Inputs without directive lines\<close>

text \<open>
  C7. When no line of the input is a directive line, \<open>filter_playlist\<close> returns the
  header followed by one newline, and empty counts. The header is the first line that
  starts with \<open>#EXTM3U\<close> once its leading byte-order marks (\<open>U+FEFF\<close>) are dropped
  and then the whitespace around it is stripped, in that stripped form, or \<open>#EXTM3U\<close>
  when there is no such line. A text of whitespace only (the empty text too) gives
  \<open>#EXTM3U\<close> and a newline. A text that starts with byte-order marks, blanks, a
  header \<open>h\<close> and blanks on one line, alone or followed by lines without a directive,
  gives \<open>h\<close> and a newline.
\<close>

theorem no_directive_only_header:
  "((\<forall>l \<in> set (splitlines text). \<not> is_directive l) \<longrightarrow>
      filter_playlist text kws =
        ((case find (\<lambda>l. startswith (strip (dropWhile (\<lambda>c. c = 65279) l)) (py ''#EXTM3U''))
                 (splitlines text) of
            None \<Rightarrow> py ''#EXTM3U'' | Some l \<Rightarrow> strip (dropWhile (\<lambda>c. c = 65279) l)) @ [10],
         Map.empty)) \<and>
   ((\<forall>c \<in> set text. isspace c) \<longrightarrow>
      filter_playlist text kws = (py ''#EXTM3U\<newline>'', Map.empty)) \<and>
   (list_all (\<lambda>c. c = 65279) boms \<and> list_all isspace a \<and> list_all isspace b \<and>
    list_all (\<lambda>c. \<not> is_linebreak c) (a @ h @ b) \<and>
    startswith h (py ''#EXTM3U'') \<and> \<not> isspace (last h) \<longrightarrow>
      filter_playlist (boms @ a @ h @ b) kws = (h @ [10], Map.empty)) \<and>
   (list_all (\<lambda>c. c = 65279) boms \<and> list_all isspace a \<and> list_all isspace b \<and>
    list_all (\<lambda>c. \<not> is_linebreak c) (a @ h @ b) \<and>
    startswith h (py ''#EXTM3U'') \<and> \<not> isspace (last h) \<and>
    (\<forall>l \<in> set (splitlines rest). \<not> is_directive l) \<longrightarrow>
      filter_playlist (boms @ a @ h @ b @ [10] @ rest) kws = (h @ [10], Map.empty))"
proof (intro conjI impI)
  assume a: "\<forall>l \<in> set (splitlines text). \<not> is_directive l"
  let ?s = "\<lparr>index = 0, output_lines = [find_header (splitlines text)], kept_by_group = Map.empty\<rparr>"
  from a have "\<forall>k. index ?s \<le> k \<and> k < length (splitlines text)
      \<longrightarrow> \<not> is_directive (splitlines text ! k)" by simp
  from main_loop_no_directive [OF this, of kws]
  have "filter_playlist text kws =
        ((case find (\<lambda>l. startswith (strip (lstrip 65279 l)) (py ''#EXTM3U'')) (splitlines text) of
            None \<Rightarrow> py ''#EXTM3U'' | Some l \<Rightarrow> strip (lstrip 65279 l)) @ [10],
         Map.empty)"
    by (simp add: filter_playlist_def Let_def find_header_find)
  then show "filter_playlist text kws =
        ((case find (\<lambda>l. startswith (strip (dropWhile (\<lambda>c. c = 65279) l)) (py ''#EXTM3U''))
                 (splitlines text) of
            None \<Rightarrow> py ''#EXTM3U'' | Some l \<Rightarrow> strip (dropWhile (\<lambda>c. c = 65279) l)) @ [10],
         Map.empty)"
    unfolding lstrip_def .
next
  assume b: "\<forall>c \<in> set text. isspace c"
  have blank: "\<forall>l \<in> set (splitlines text). list_all isspace l"
    using b splitlines_chars by (fastforce simp: list_all_iff)
  let ?s = "\<lparr>index = 0, output_lines = [find_header (splitlines text)], kept_by_group = Map.empty\<rparr>"
  from blank have "\<forall>l \<in> set (splitlines text). \<not> is_directive l"
    by (auto simp: is_directive_def strip_all_space startswith_def py_def)
  then have "\<forall>k. index ?s \<le> k \<and> k < length (splitlines text)
      \<longrightarrow> \<not> is_directive (splitlines text ! k)" by simp
  from main_loop_no_directive [OF this, of kws] find_header_blank [OF blank]
  show "filter_playlist text kws = (py ''#EXTM3U\<newline>'', Map.empty)"
    by (simp add: filter_playlist_def Let_def py_def)
next
  assume p: "list_all (\<lambda>c. c = 65279) boms \<and> list_all isspace a \<and> list_all isspace b \<and>
    list_all (\<lambda>c. \<not> is_linebreak c) (a @ h @ b) \<and>
    startswith h (py ''#EXTM3U'') \<and> \<not> isspace (last h)"
  let ?l = "boms @ a @ h @ b"
  from p have n: "strip (lstrip 65279 ?l) = h" and nd: "\<not> is_directive ?l"
    using header_line_normalized [of boms a b h] by blast+
  from p have hne: "h \<noteq> []" by (auto simp: startswith_def py_def)
  from p have "clean ?l"
    by (auto simp: clean_def list_all_iff is_linebreak_def)
  with hne have sp: "splitlines ?l = [?l]" by (simp add: splitlines_single)
  let ?s = "\<lparr>index = 0, output_lines = [find_header [?l]], kept_by_group = Map.empty\<rparr>"
  from nd have "\<forall>k. index ?s \<le> k \<and> k < length [?l] \<longrightarrow> \<not> is_directive ([?l] ! k)" by simp
  from main_loop_no_directive [OF this, of kws] p
  show "filter_playlist ?l kws = (h @ [10], Map.empty)"
    unfolding filter_playlist_def Let_def sp by (simp add: Let_def n)
next
  assume p: "list_all (\<lambda>c. c = 65279) boms \<and> list_all isspace a \<and> list_all isspace b \<and>
    list_all (\<lambda>c. \<not> is_linebreak c) (a @ h @ b) \<and>
    startswith h (py ''#EXTM3U'') \<and> \<not> isspace (last h) \<and>
    (\<forall>l \<in> set (splitlines rest). \<not> is_directive l)"
  let ?l = "boms @ a @ h @ b"
  from p have n: "strip (lstrip 65279 ?l) = h" and nd: "\<not> is_directive ?l"
    using header_line_normalized [of boms a b h] by blast+
  from p have "clean ?l"
    by (auto simp: clean_def list_all_iff is_linebreak_def)
  from splitlines_from_line [OF this, of "[]" rest]
  have sp: "splitlines (boms @ a @ h @ b @ [10] @ rest) = ?l # splitlines rest"
    by (simp add: splitlines_def)
  let ?s = "\<lparr>index = 0, output_lines = [find_header (?l # splitlines rest)],
             kept_by_group = Map.empty\<rparr>"
  from nd p have "\<forall>l \<in> set (?l # splitlines rest). \<not> is_directive l" by simp
  then have "\<forall>k. index ?s \<le> k \<and> k < length (?l # splitlines rest)
      \<longrightarrow> \<not> is_directive ((?l # splitlines rest) ! k)"
    using nth_mem by (metis)
  from main_loop_no_directive [OF this, of kws] p
  show "filter_playlist (boms @ a @ h @ b @ [10] @ rest) kws = (h @ [10], Map.empty)"
    unfolding filter_playlist_def Let_def sp by (simp add: Let_def n)
qed

theorem no_directive_only_header_witness:
  "filter_playlist ([65279, 65279] @ py ''  #EXTM3U x \<newline>#EXTVLCOPT\<newline>http://u\<newline>'') [py '''']
     = (py ''#EXTM3U x\<newline>'', Map.empty) \<and>
   filter_playlist ([65279] @ py ''#EXTM3U'') [py ''''] = (py ''#EXTM3U\<newline>'', Map.empty) \<and>
   filter_playlist (py '' \<newline>  '') [py ''''] = (py ''#EXTM3U\<newline>'', Map.empty) \<and>
   filter_playlist (py ''\<newline>  #EXTM3U x \<newline>#EXTVLCOPT\<newline>http://u\<newline>'') [py '''']
     = (py ''#EXTM3U x\<newline>'', Map.empty)"
proof -
  let ?K = "[py '''']"
  let ?R = "py ''#EXTVLCOPT\<newline>http://u\<newline>''"
  let ?T = "py ''\<newline>  #EXTM3U x \<newline>#EXTVLCOPT\<newline>http://u\<newline>''"
  \<comment> \<open>a header line with byte-order marks and blanks around it, then other lines\<close>
  have "list_all (\<lambda>c. c = 65279) [65279, 65279::nat] \<and> list_all isspace (py ''  '') \<and>
    list_all isspace (py '' '') \<and>
    list_all (\<lambda>c. \<not> is_linebreak c) (py ''  '' @ py ''#EXTM3U x'' @ py '' '') \<and>
    startswith (py ''#EXTM3U x'') (py ''#EXTM3U'') \<and> \<not> isspace (last (py ''#EXTM3U x'')) \<and>
    (\<forall>l \<in> set (splitlines ?R). \<not> is_directive l)"
    by (simp add: is_directive_def eval_defs)
  with no_directive_only_header [of _ ?K "[65279, 65279]" "py ''  ''" "py '' ''" "py ''#EXTM3U x''" ?R]
  have "filter_playlist ([65279, 65279] @ py ''  '' @ py ''#EXTM3U x'' @ py '' '' @ [10] @ ?R) ?K
      = (py ''#EXTM3U x'' @ [10], Map.empty)"
    by blast
  then have 1: "filter_playlist ([65279, 65279] @ py ''  #EXTM3U x \<newline>#EXTVLCOPT\<newline>http://u\<newline>'') ?K
     = (py ''#EXTM3U x\<newline>'', Map.empty)"
    by (simp add: py_def)
  \<comment> \<open>a byte-order mark and the bare token, with no newline\<close>
  have "list_all (\<lambda>c. c = 65279) [65279::nat] \<and> list_all isspace [] \<and> list_all isspace [] \<and>
    list_all (\<lambda>c. \<not> is_linebreak c) ([] @ py ''#EXTM3U'' @ []) \<and>
    startswith (py ''#EXTM3U'') (py ''#EXTM3U'') \<and> \<not> isspace (last (py ''#EXTM3U''))"
    by (simp add: eval_defs)
  with no_directive_only_header [of _ ?K "[65279]" "[]" "[]" "py ''#EXTM3U''"]
  have "filter_playlist ([65279] @ [] @ py ''#EXTM3U'' @ []) ?K = (py ''#EXTM3U'' @ [10], Map.empty)"
    by blast
  then have 2: "filter_playlist ([65279] @ py ''#EXTM3U'') ?K = (py ''#EXTM3U\<newline>'', Map.empty)"
    by (simp add: py_def)
  \<comment> \<open>whitespace only\<close>
  have "\<forall>c \<in> set (py '' \<newline>  ''). isspace c"
    by (simp add: eval_defs)
  with no_directive_only_header [of "py '' \<newline>  ''" ?K]
  have 3: "filter_playlist (py '' \<newline>  '') ?K = (py ''#EXTM3U\<newline>'', Map.empty)"
    by blast
  \<comment> \<open>the header on the second line\<close>
  have 4: "\<forall>l \<in> set (splitlines ?T). \<not> is_directive l"
    by (simp add: is_directive_def eval_defs)
  have 5: "(case find (\<lambda>l. startswith (strip (dropWhile (\<lambda>c. c = 65279) l)) (py ''#EXTM3U''))
                 (splitlines ?T) of
            None \<Rightarrow> py ''#EXTM3U'' | Some l \<Rightarrow> strip (dropWhile (\<lambda>c. c = 65279) l)) = py ''#EXTM3U x''"
    by (simp add: eval_defs)
  from no_directive_only_header [of ?T ?K] 4
  have 6: "filter_playlist ?T ?K = (py ''#EXTM3U x\<newline>'', Map.empty)"
    unfolding 5 by (simp add: py_def)
  from 1 2 3 6 show ?thesis by blast
qed

section \<open>The fetcher\<close>

text \<open>
  C8, as amended. The sources are tried in the given order and the first success is
  returned. When the attempts on \<open>bad1\<close> and \<open>bad2\<close> raise errors of the classes that
  \<open>fetch_text\<close> catches (\<open>URLError\<close>, \<open>TimeoutError\<close>, \<open>OSError\<close>) and the attempt on
  \<open>good\<close> yields \<open>T\<close>, the run returns \<open>(T, good)\<close> after exactly one attempt on each
  of the three sources, in order. In general, when the sources before \<open>good\<close> fail with
  such errors and \<open>good\<close> yields \<open>T\<close>, the run returns \<open>(T, good)\<close> and the sources
  after \<open>good\<close> are not attempted.
\<close>

theorem fetch_text_first_success:
  "(urlopen w0 bad1 = (Failed e1, w1) \<and> urlopen w1 bad2 = (Failed e2, w2) \<and>
    urlopen w2 good = (Fetched T, w3) \<longrightarrow>
      fetch_text urlopen w0 [bad1, bad2, good] = (Inr (T, good), w3, [bad1, bad2, good])) \<and>
   (list_all is_Failed (attempts urlopen w pre) \<and>
    urlopen (world_after urlopen w pre) good = (Fetched T, w') \<longrightarrow>
      fetch_text urlopen w (pre @ good # rest) = (Inr (T, good), w', pre @ [good]))"
  using fetch_loop_first_success [of urlopen w pre good T w' rest None "[]"]
  by (simp add: fetch_text_def)

theorem fetch_text_first_success_witness:
  "fetch_text (\<lambda>w url. (if url = py ''good'' then Fetched (py ''T'') else Failed w, Suc w)) (0::nat)
     [py ''bad1'', py ''bad2'', py ''good'']
   = (Inr (py ''T'', py ''good'') :: (nat, unit) fetch_error + pystr \<times> pystr, 3,
      [py ''bad1'', py ''bad2'', py ''good'']) \<and>
   fetch_text (\<lambda>w url. (if url = py ''good'' then Fetched (py ''T'') else Failed w, Suc w)) (0::nat)
     [py ''bad1'', py ''good'', py ''bad2'', py ''good'']
   = (Inr (py ''T'', py ''good'') :: (nat, unit) fetch_error + pystr \<times> pystr, 2,
      [py ''bad1'', py ''good''])"
proof -
  let ?U = "\<lambda>w url. (if url = py ''good'' then Fetched (py ''T'') else Failed w, Suc w)
    :: (nat, unit) outcome \<times> nat"
  have 1: "?U 0 (py ''bad1'') = (Failed 0, 1) \<and> ?U 1 (py ''bad2'') = (Failed 1, 2) \<and>
      ?U 2 (py ''good'') = (Fetched (py ''T''), 3)"
    by (simp add: py_def)
  have 2: "list_all is_Failed (attempts ?U 0 [py ''bad1'']) \<and>
      ?U (world_after ?U 0 [py ''bad1'']) (py ''good'') = (Fetched (py ''T''), 2)"
    by (simp add: py_def)
  note t = fetch_text_first_success [of ?U 0 "py ''bad1''" 0 1 "py ''bad2''" 1 2 "py ''good''"
      "py ''T''" 3 0 "[py ''bad1'']" 2 "[py ''bad2'', py ''good'']"]
  from t [THEN conjunct1, rule_format, OF 1] t [THEN conjunct2, rule_format, OF 2]
  show ?thesis by simp
qed

text \<open>
  C8 as stated speaks of any error. An exception outside the classes of the \<open>except\<close>
  clause leaves \<open>fetch_text\<close> at once: the later sources, the good one too, are never
  attempted.
\<close>

theorem fetch_text_first_success_counterexample:
  "attempts (\<lambda>w url. (if url = py ''good'' then Fetched (py ''T'') else Escaped w, Suc w)) (0::nat)
     [py ''bad1'', py ''bad2'', py ''good'']
   = [Escaped 0, Escaped 1, Fetched (py ''T'') :: (unit, nat) outcome] \<and>
   fetch_text (\<lambda>w url. (if url = py ''good'' then Fetched (py ''T'') else Escaped w, Suc w)) (0::nat)
     [py ''bad1'', py ''bad2'', py ''good'']
   = (Inl (Propagated 0) :: (unit, nat) fetch_error + pystr \<times> pystr, 1, [py ''bad1''])"
  by (simp add: fetch_text_def py_def)

text \<open>
  C9, as amended. With an empty source list \<open>fetch_text\<close> raises the error that no
  source URLs were provided, which has no underlying error. When every source of a
  non-empty list fails with an error of the classes that \<open>fetch_text\<close> catches, it
  raises the fetch error that carries the error of the last attempt, after one attempt
  on each source. It raises exactly when no attempted source succeeds; what it raises is
  one of the two fetch errors exactly when every source fails with a caught error, and it
  is the exception \<open>x\<close> itself exactly when \<open>x\<close> is an uncaught exception of the first
  attempt that does not fail with a caught error.
\<close>

theorem fetch_text_failure:
  "fetch_text urlopen w [] = (Inl NoSourceURLs, w, []) \<and>
   (urls \<noteq> [] \<and> list_all is_Failed (attempts urlopen w urls) \<longrightarrow>
      (\<exists>exc w'. last (attempts urlopen w urls) = Failed exc \<and>
         fetch_text urlopen w urls = (Inl (FetchFailed exc), w', urls))) \<and>
   (isl (fst (fetch_text urlopen w urls)) \<longleftrightarrow>
      \<not> (\<exists>n < length urls. list_all is_Failed (take n (attempts urlopen w urls)) \<and>
            is_Fetched (attempts urlopen w urls ! n))) \<and>
   ((fst (fetch_text urlopen w urls) = Inl NoSourceURLs \<or>
     (\<exists>exc. fst (fetch_text urlopen w urls) = Inl (FetchFailed exc)))
    \<longleftrightarrow> list_all is_Failed (attempts urlopen w urls)) \<and>
   (fst (fetch_text urlopen w urls) = Inl (Propagated x) \<longleftrightarrow>
      (\<exists>n < length urls. list_all is_Failed (take n (attempts urlopen w urls)) \<and>
         attempts urlopen w urls ! n = Escaped x))"
  using fetch_loop_all_failed [of urls urlopen w None "[]"]
    fetch_loop_isl [of urlopen w urls None "[]"]
    fetch_loop_fetch_error [of urlopen w urls None "[]"]
    fetch_loop_propagated [of urlopen w urls None "[]" x]
  by (simp add: fetch_text_def)

theorem fetch_text_failure_witness:
  "list_all is_Failed
     (attempts (\<lambda>w url. (Failed w :: (nat, unit) outcome, Suc w)) 0 [py ''u1'', py ''u2'']) \<and>
   fetch_text (\<lambda>w url. (Failed w :: (nat, unit) outcome, Suc w)) 0 [py ''u1'', py ''u2'']
     = (Inl (FetchFailed 1), 2, [py ''u1'', py ''u2'']) \<and>
   fetch_text (\<lambda>w url. (Failed w :: (nat, unit) outcome, Suc w)) 0 []
     = (Inl NoSourceURLs, 0, [])"
  using fetch_text_failure
    [of "\<lambda>w url. (Failed w :: (nat, unit) outcome, Suc w)" 0 "[py ''u1'', py ''u2'']"]
  by (simp add: fetch_text_def)

text \<open>
  C9 as stated promises the fetch error with the last recorded error whenever every
  source fails. When a source fails with an exception that is not caught, that exception
  is raised instead, although an earlier error was recorded.
\<close>

theorem fetch_text_failure_counterexample:
  "attempts (\<lambda>w url. (if w = 0 then Failed w else Escaped w, Suc w)) (0::nat) [py ''u1'', py ''u2'']
   = [Failed 0, Escaped 1 :: (nat, nat) outcome] \<and>
   fetch_text (\<lambda>w url. (if w = 0 then Failed w else Escaped w, Suc w)) (0::nat) [py ''u1'', py ''u2'']
   = (Inl (Propagated 1) :: (nat, nat) fetch_error + pystr \<times> pystr, 2, [py ''u1'', py ''u2''])"
  by (simp add: fetch_text_def)

section \<open>Termination of the scan\<close>

text \<open>
  C10. Every iteration of the main loop moves the cursor forward: by one when the line
  is no directive or no candidate URL follows it, and to the line after the URL line
  otherwise. So the loop ends: the result of \<open>filter_playlist\<close> is reached after at most
  as many iterations of the loop body as the text has lines.
\<close>

theorem filter_playlist_terminates:
  "(index s < length lines \<longrightarrow>
      index s < index (loop_body lines kws s) \<and>
      index (loop_body lines kws s) =
        (if is_directive (lines ! index s) \<and> snd (find_stream_url lines (index s + 1)) \<noteq> None
         then fst (find_stream_url lines (index s + 1)) + 1 else index s + 1)) \<and>
   (\<exists>n \<le> length (splitlines text).
      let s' = (loop_body (splitlines text) kws ^^ n)
                 \<lparr>index = 0, output_lines = [find_header (splitlines text)],
                  kept_by_group = Map.empty\<rparr>
      in length (splitlines text) \<le> index s' \<and>
         filter_playlist text kws = (join_nl (output_lines s') @ [10], kept_by_group s'))"
proof -
  have "index (loop_body lines kws s) =
        (if is_directive (lines ! index s) \<and> snd (find_stream_url lines (index s + 1)) \<noteq> None
         then fst (find_stream_url lines (index s + 1)) + 1 else index s + 1)"
  proof (cases "is_directive (lines ! index s)")
    case False
    then show ?thesis by (simp add: loop_body_not_directive)
  next
    case True
    show ?thesis
    proof (cases "find_stream_url lines (index s + 1)")
      case (Pair j u)
      with True show ?thesis
        by (cases u) (simp_all add: loop_body_no_url loop_body_url)
    qed
  qed
  moreover
  from main_loop_iterations [of "splitlines text" "\<lparr>index = 0, output_lines = [find_header (splitlines text)],
                  kept_by_group = Map.empty\<rparr>" kws]
  have "\<exists>n \<le> length (splitlines text).
      let s' = (loop_body (splitlines text) kws ^^ n)
                 \<lparr>index = 0, output_lines = [find_header (splitlines text)],
                  kept_by_group = Map.empty\<rparr>
      in length (splitlines text) \<le> index s' \<and>
         filter_playlist text kws = (join_nl (output_lines s') @ [10], kept_by_group s')"
    by (auto simp: filter_playlist_def Let_def)
  ultimately show ?thesis
    using loop_body_advances [of s lines kws] by simp
qed

theorem filter_playlist_terminates_witness:
  "index \<lparr>index = 0, output_lines = [py ''#EXTM3U''], kept_by_group = Map.empty\<rparr>
     < length [py ''#EXTINF:0,a'', py ''#x'', py ''u'', py ''v''] \<and>
   index (loop_body [py ''#EXTINF:0,a'', py ''#x'', py ''u'', py ''v''] [py ''A'']
            \<lparr>index = 0, output_lines = [py ''#EXTM3U''], kept_by_group = Map.empty\<rparr>) = 3"
proof -
  have h: "index \<lparr>index = 0, output_lines = [py ''#EXTM3U''], kept_by_group = Map.empty\<rparr>
     < length [py ''#EXTINF:0,a'', py ''#x'', py ''u'', py ''v'']"
    by simp
  have d: "is_directive ([py ''#EXTINF:0,a'', py ''#x'', py ''u'', py ''v''] ! 0)"
    by (simp add: is_directive_def eval_defs)
  have f: "find_stream_url [py ''#EXTINF:0,a'', py ''#x'', py ''u'', py ''v''] 1 = (2, Some (py ''u''))"
    by (simp add: eval_defs)
  from filter_playlist_terminates
    [of "\<lparr>index = 0, output_lines = [py ''#EXTM3U''], kept_by_group = Map.empty\<rparr>"
      "[py ''#EXTINF:0,a'', py ''#x'', py ''u'', py ''v'']" "[py ''A'']"] h d f
  show ?thesis by simp
qed

end
